theory Spec2Isabelle
  imports Main "HOL-Library.Product_Lexorder"
begin

section \<open>The datetime library as the programs use it\<close>

text \<open>
  Both bots (\<^verbatim>\<open>autointerviewbot.py\<close>, \<^verbatim>\<open>textbasedbot.py\<close>) compute on naive
  \<^verbatim>\<open>datetime\<close> values: they read the fields \<^verbatim>\<open>year\<close>, \<^verbatim>\<open>month\<close>, \<^verbatim>\<open>day\<close>,
  \<^verbatim>\<open>hour\<close>, ..., call \<^verbatim>\<open>weekday()\<close> and \<^verbatim>\<open>replace(...)\<close>, add and subtract
  \<^verbatim>\<open>timedelta\<close>s and compare with \<^verbatim>\<open><\<close> and \<^verbatim>\<open><=\<close>.  The calendar arithmetic below
  follows CPython's \<^verbatim>\<open>Lib/_pydatetime.py\<close> function by function.
\<close>

datatype error =
    ValueError      \<comment> \<open>a date field out of range, e.g. 29 February in a common year\<close>
  | OverflowError   \<comment> \<open>date arithmetic left the years 1..9999\<close>
  | KeyError        \<comment> \<open>a key missing from the free/busy response\<close>
  | QueryError string \<comment> \<open>any exception raised by the remote free/busy call\<close>

subsection \<open>Proleptic Gregorian calendar\<close>

definition MAXORDINAL :: int where
  "MAXORDINAL = 3652059"  \<comment> \<open>\<^verbatim>\<open>date(9999, 12, 31).toordinal()\<close>\<close>

definition DAYS_IN_MONTH :: "int \<Rightarrow> int" where
  "DAYS_IN_MONTH m = [-1, 31, 28, 31, 30, 31, 30, 31, 31, 30, 31, 30, 31] ! nat m"

definition DAYS_BEFORE_MONTH :: "int \<Rightarrow> int" where
  "DAYS_BEFORE_MONTH m = [-1, 0, 31, 59, 90, 120, 151, 181, 212, 243, 273, 304, 334] ! nat m"

definition is_leap :: "int \<Rightarrow> bool" where
  "is_leap y \<longleftrightarrow> y mod 4 = 0 \<and> (y mod 100 \<noteq> 0 \<or> y mod 400 = 0)"

definition days_before_year :: "int \<Rightarrow> int" where
  "days_before_year y = (y - 1) * 365 + (y - 1) div 4 - (y - 1) div 100 + (y - 1) div 400"

definition days_in_month :: "int \<Rightarrow> int \<Rightarrow> int" where
  "days_in_month y m = (if m = 2 \<and> is_leap y then 29 else DAYS_IN_MONTH m)"

definition days_before_month :: "int \<Rightarrow> int \<Rightarrow> int" where
  "days_before_month y m = DAYS_BEFORE_MONTH m + (if m > 2 \<and> is_leap y then 1 else 0)"

definition ymd2ord :: "int \<Rightarrow> int \<Rightarrow> int \<Rightarrow> int" where
  "ymd2ord y m d = days_before_year y + days_before_month y m + d"

definition month_day_of :: "bool \<Rightarrow> int \<Rightarrow> int \<times> int" where
  \<comment> \<open>the tail of \<^verbatim>\<open>_ord2ymd\<close>: month and day from the 0-based offset into the year\<close>
  "month_day_of leapyear n =
     (let month = (n + 50) div 32;
          preceding = DAYS_BEFORE_MONTH month + (if month > 2 \<and> leapyear then 1 else 0)
      in if preceding > n
         then (let month' = month - 1;
                   preceding' = preceding
                     - (DAYS_IN_MONTH month' + (if month' = 2 \<and> leapyear then 1 else 0))
               in (month', n - preceding' + 1))
         else (month, n - preceding + 1))"

definition ord2ymd :: "int \<Rightarrow> int \<times> int \<times> int" where
  "ord2ymd ordinal =
     (let n = ordinal - 1;
          n400 = n div 146097; r400 = n mod 146097;
          n100 = r400 div 36524; r100 = r400 mod 36524;
          n4 = r100 div 1461; r4 = r100 mod 1461;
          n1 = r4 div 365; r1 = r4 mod 365;
          y = n400 * 400 + 1 + n100 * 100 + n4 * 4 + n1
      in if n1 = 4 \<or> n100 = 4 then (y - 1, 12, 31)
         else (let leapyear = (n1 = 3 \<and> (n4 \<noteq> 24 \<or> n100 = 3));
                   md = month_day_of leapyear r1
               in (y, fst md, snd md)))"

subsection \<open>Naive datetimes and timedeltas\<close>

text \<open>
  A naive datetime is a day of the proleptic Gregorian calendar together with a time of
  day.  The day is kept as its ordinal (\<^verbatim>\<open>toordinal()\<close>, 1 for 0001-01-01), the number
  through which the library itself does all date arithmetic and \<^verbatim>\<open>weekday()\<close>; the
  fields \<^verbatim>\<open>year\<close>, \<^verbatim>\<open>month\<close> and \<^verbatim>\<open>day\<close> are read off it with \<^verbatim>\<open>_ord2ymd\<close>.
\<close>

record datetime =
  toordinal :: int
  hour :: int
  minute :: int
  second :: int
  microsecond :: int

definition valid_datetime :: "datetime \<Rightarrow> bool" where
  "valid_datetime t \<longleftrightarrow>
     1 \<le> toordinal t \<and> toordinal t \<le> MAXORDINAL \<and>
     0 \<le> hour t \<and> hour t < 24 \<and> 0 \<le> minute t \<and> minute t < 60 \<and>
     0 \<le> second t \<and> second t < 60 \<and> 0 \<le> microsecond t \<and> microsecond t < 1000000"

definition year :: "datetime \<Rightarrow> int" where
  "year t = fst (ord2ymd (toordinal t))"

definition month :: "datetime \<Rightarrow> int" where
  "month t = fst (snd (ord2ymd (toordinal t)))"

definition day :: "datetime \<Rightarrow> int" where
  "day t = snd (snd (ord2ymd (toordinal t)))"

definition weekday :: "datetime \<Rightarrow> int" where
  "weekday t = (toordinal t + 6) mod 7"  \<comment> \<open>Monday is 0, Saturday 5, Sunday 6\<close>

definition new_datetime ::
  "int \<Rightarrow> int \<Rightarrow> int \<Rightarrow> int \<Rightarrow> int \<Rightarrow> int \<Rightarrow> int \<Rightarrow> error + datetime" where
  \<comment> \<open>the constructor \<^verbatim>\<open>datetime(year, month, day, hour, minute, second, microsecond)\<close>
      with its field checks\<close>
  "new_datetime y m d hh mm ss us =
     (if \<not> (1 \<le> y \<and> y \<le> 9999) then Inl ValueError
      else if \<not> (1 \<le> m \<and> m \<le> 12) then Inl ValueError
      else if \<not> (1 \<le> d \<and> d \<le> days_in_month y m) then Inl ValueError
      else if \<not> (0 \<le> hh \<and> hh \<le> 23) then Inl ValueError
      else if \<not> (0 \<le> mm \<and> mm \<le> 59) then Inl ValueError
      else if \<not> (0 \<le> ss \<and> ss \<le> 59) then Inl ValueError
      else if \<not> (0 \<le> us \<and> us \<le> 999999) then Inl ValueError
      else Inr \<lparr>toordinal = ymd2ord y m d, hour = hh, minute = mm, second = ss,
                microsecond = us\<rparr>)"

definition replace_year :: "datetime \<Rightarrow> int \<Rightarrow> error + datetime" where
  \<comment> \<open>\<^verbatim>\<open>t.replace(year=y)\<close> builds a new datetime from the other fields of \<open>t\<close>\<close>
  "replace_year t y =
     new_datetime y (month t) (day t) (hour t) (minute t) (second t) (microsecond t)"

definition replace_time :: "datetime \<Rightarrow> int \<Rightarrow> int \<Rightarrow> int \<Rightarrow> int \<Rightarrow> datetime" where
  \<comment> \<open>\<^verbatim>\<open>t.replace(hour=hh, minute=mm, second=ss, microsecond=us)\<close>; the programs only
      pass constants that are in range\<close>
  "replace_time t hh mm ss us = t\<lparr>hour := hh, minute := mm, second := ss, microsecond := us\<rparr>"

record timedelta =
  days :: int
  seconds :: int
  microseconds :: int

definition timedelta_of :: "int \<Rightarrow> int \<Rightarrow> int \<Rightarrow> timedelta" where
  \<comment> \<open>\<^verbatim>\<open>timedelta(days=d, hours=h, minutes=m)\<close>, normalised as the constructor does\<close>
  "timedelta_of d h m =
     (let s = h * 3600 + m * 60
      in \<lparr>days = d + s div 86400, seconds = s mod 86400, microseconds = 0\<rparr>)"

definition timedelta_add :: "timedelta \<Rightarrow> timedelta \<Rightarrow> timedelta" where
  "timedelta_add a b =
     (let us = microseconds a + microseconds b;
          s = seconds a + seconds b + us div 1000000
      in \<lparr>days = days a + days b + s div 86400, seconds = s mod 86400,
          microseconds = us mod 1000000\<rparr>)"

definition timedelta_neg :: "timedelta \<Rightarrow> timedelta" where
  "timedelta_neg td =
     (let us = - microseconds td;
          s = - seconds td + us div 1000000
      in \<lparr>days = - days td + s div 86400, seconds = s mod 86400,
          microseconds = us mod 1000000\<rparr>)"

definition as_timedelta :: "datetime \<Rightarrow> timedelta" where
  \<comment> \<open>\<^verbatim>\<open>timedelta(self.toordinal(), hours=self._hour, minutes=self._minute,
      seconds=self._second, microseconds=self._microsecond)\<close>\<close>
  "as_timedelta t =
     timedelta_add \<lparr>days = toordinal t, seconds = 0, microseconds = 0\<rparr>
       \<lparr>days = 0, seconds = hour t * 3600 + minute t * 60 + second t,
        microseconds = microsecond t\<rparr>"

definition datetime_add :: "datetime \<Rightarrow> timedelta \<Rightarrow> error + datetime" where
  \<comment> \<open>\<^verbatim>\<open>datetime.__add__\<close>: through the ordinal, \<^verbatim>\<open>OverflowError\<close> outside 1..MAXORDINAL\<close>
  "datetime_add t td =
     (let delta = timedelta_add (as_timedelta t) td;
          hh = seconds delta div 3600;
          rem = seconds delta mod 3600
      in if 0 < days delta \<and> days delta \<le> MAXORDINAL
         then Inr \<lparr>toordinal = days delta, hour = hh, minute = rem div 60,
                   second = rem mod 60, microsecond = microseconds delta\<rparr>
         else Inl OverflowError)"

definition datetime_sub :: "datetime \<Rightarrow> timedelta \<Rightarrow> error + datetime" where
  \<comment> \<open>\<^verbatim>\<open>self + -other\<close>\<close>
  "datetime_sub t td = datetime_add t (timedelta_neg td)"

definition cmp_key :: "datetime \<Rightarrow> int \<times> int \<times> int \<times> int \<times> int" where
  "cmp_key t = (toordinal t, hour t, minute t, second t, microsecond t)"

definition datetime_less :: "datetime \<Rightarrow> datetime \<Rightarrow> bool" where
  \<comment> \<open>\<^verbatim>\<open>a < b\<close>: the library compares the field tuples lexicographically\<close>
  "datetime_less a b \<longleftrightarrow> cmp_key a < cmp_key b"

definition datetime_le :: "datetime \<Rightarrow> datetime \<Rightarrow> bool" where
  "datetime_le a b \<longleftrightarrow> cmp_key a \<le> cmp_key b"

definition epoch_seconds :: "datetime \<Rightarrow> int" where
  \<comment> \<open>whole seconds since the start of day 0; used to measure the loops only\<close>
  "epoch_seconds t =
     toordinal t * 86400 + hour t * 3600 + minute t * 60 + second t
       + microsecond t div 1000000"

definition time_in_day :: "datetime \<Rightarrow> bool" where
  \<comment> \<open>the time-of-day fields add up to a moment inside one day (it holds of every
      datetime the library hands out)\<close>
  "time_in_day t \<longleftrightarrow>
     0 \<le> hour t * 3600 + minute t * 60 + second t + microsecond t div 1000000 \<and>
     hour t * 3600 + minute t * 60 + second t + microsecond t div 1000000 < 86400"

subsection \<open>Arithmetic of hours, minutes and seconds\<close>

lemma hms_recompose:
  "(r div 3600) * 3600 + ((r mod 3600) div 60) * 60 + (r mod 3600) mod 60 = (r::int)"
proof -
  have "((r mod 3600) div 60) * 60 + (r mod 3600) mod 60 = r mod 3600" by simp
  then show ?thesis by (simp add: add.assoc)
qed

lemma ms_split:
  fixes m s :: int
  assumes "0 \<le> m" "m < 60" "0 \<le> s" "s < 60"
  shows "(m * 60 + s) div 60 = m" "(m * 60 + s) mod 60 = s"
  using assms by auto

lemma hms_split:
  fixes h m s :: int
  assumes "0 \<le> m" "m < 60" "0 \<le> s" "s < 60"
  shows "(h * 3600 + m * 60 + s) div 3600 = h" "(h * 3600 + m * 60 + s) mod 3600 = m * 60 + s"
proof -
  have r: "0 \<le> m * 60 + s" "m * 60 + s < 3600" using assms by auto
  have e: "h * 3600 + m * 60 + s = (m * 60 + s) + h * 3600" by simp
  show "(h * 3600 + m * 60 + s) div 3600 = h"
    unfolding e using r by simp
  show "(h * 3600 + m * 60 + s) mod 3600 = m * 60 + s"
    unfolding e using r by simp
qed

lemma day_split:
  fixes x :: int
  assumes "0 \<le> x" "x < 86400"
  shows "x div 86400 = 0" "x mod 86400 = x"
  using assms by simp_all

lemma us_split:
  fixes u :: int
  assumes "0 \<le> u" "u < 1000000"
  shows "u div 1000000 = 0" "u mod 1000000 = u"
  using assms by simp_all

subsection \<open>Facts about datetime addition\<close>

lemma datetime_add_Inr:
  assumes "datetime_add t td = Inr t1"
  shows "toordinal t1 = days (timedelta_add (as_timedelta t) td)"
    and "hour t1 = seconds (timedelta_add (as_timedelta t) td) div 3600"
    and "minute t1 = (seconds (timedelta_add (as_timedelta t) td) mod 3600) div 60"
    and "second t1 = (seconds (timedelta_add (as_timedelta t) td) mod 3600) mod 60"
    and "microsecond t1 = microseconds (timedelta_add (as_timedelta t) td)"
    and "0 < toordinal t1" and "toordinal t1 \<le> MAXORDINAL"
  using assms unfolding datetime_add_def Let_def
  by (auto split: if_splits)

lemma timedelta_add_range:
  "0 \<le> seconds (timedelta_add a b)" "seconds (timedelta_add a b) < 86400"
  "0 \<le> microseconds (timedelta_add a b)" "microseconds (timedelta_add a b) < 1000000"
  by (simp_all add: timedelta_add_def Let_def)

lemma datetime_add_time_in_day:
  assumes "datetime_add t td = Inr t1"
  shows "time_in_day t1"
proof -
  define r where "r = seconds (timedelta_add (as_timedelta t) td)"
  define u where "u = microseconds (timedelta_add (as_timedelta t) td)"
  have r: "0 \<le> r" "r < 86400" and u: "0 \<le> u" "u < 1000000"
    unfolding r_def u_def by (rule timedelta_add_range)+
  have f: "hour t1 = r div 3600" "minute t1 = (r mod 3600) div 60"
    "second t1 = (r mod 3600) mod 60" "microsecond t1 = u"
    unfolding r_def u_def using datetime_add_Inr[OF assms] by simp_all
  have "hour t1 * 3600 + minute t1 * 60 + second t1 = r"
    unfolding f by (rule hms_recompose)
  then show ?thesis
    unfolding time_in_day_def using r u f(4) by (simp add: us_split)
qed


lemma as_timedelta_fields:
  "days (as_timedelta t) = toordinal t
     + (hour t * 3600 + minute t * 60 + second t + microsecond t div 1000000) div 86400"
  "seconds (as_timedelta t)
     = (hour t * 3600 + minute t * 60 + second t + microsecond t div 1000000) mod 86400"
  "microseconds (as_timedelta t) = microsecond t mod 1000000"
  by (simp_all add: as_timedelta_def timedelta_add_def Let_def)

lemma datetime_add_epoch_seconds:
  assumes "datetime_add t td = Inr t1" "microseconds td = 0"
  shows "epoch_seconds t1 = epoch_seconds t + days td * 86400 + seconds td"
proof -
  define S where "S = hour t * 3600 + minute t * 60 + second t + microsecond t div 1000000"
  define s2 where "s2 = S mod 86400 + seconds td"
  define D where "D = timedelta_add (as_timedelta t) td"
  have u0: "(microsecond t mod 1000000) div 1000000 = 0" by simp
  have D: "days D = toordinal t + S div 86400 + days td + s2 div 86400"
    "seconds D = s2 mod 86400" "microseconds D = microsecond t mod 1000000"
    unfolding D_def timedelta_add_def Let_def as_timedelta_fields S_def s2_def
    using assms(2) by (simp_all only: u0 add_0_right timedelta.simps mod_mod_trivial)
  have f: "toordinal t1 = days D" "hour t1 = seconds D div 3600"
    "minute t1 = (seconds D mod 3600) div 60" "second t1 = (seconds D mod 3600) mod 60"
    "microsecond t1 = microseconds D"
    unfolding D_def using datetime_add_Inr[OF assms(1)] by simp_all
  have hms: "hour t1 * 3600 + minute t1 * 60 + second t1 = seconds D"
    unfolding f by (rule hms_recompose)
  have "epoch_seconds t1 = days D * 86400 + seconds D + microseconds D div 1000000"
    unfolding epoch_seconds_def using hms f(1) f(5) by simp
  also have "\<dots> = (toordinal t + S div 86400 + days td + s2 div 86400) * 86400 + s2 mod 86400"
    unfolding D using u0 by simp
  also have "\<dots> = toordinal t * 86400 + (S div 86400 * 86400 + S mod 86400) + days td * 86400
      + seconds td"
    unfolding s2_def by (simp add: algebra_simps)
  also have "\<dots> = toordinal t * 86400 + S + days td * 86400 + seconds td"
    by simp
  finally show ?thesis unfolding epoch_seconds_def S_def by simp
qed

lemma time_in_day_epoch:
  assumes "time_in_day t"
  shows "toordinal t * 86400 \<le> epoch_seconds t" "epoch_seconds t < (toordinal t + 1) * 86400"
  using assms unfolding time_in_day_def epoch_seconds_def by auto

lemma epoch_seconds_toordinal:
  assumes "time_in_day t"
  shows "toordinal t = epoch_seconds t div 86400"
proof -
  define S where "S = hour t * 3600 + minute t * 60 + second t + microsecond t div 1000000"
  have S: "0 \<le> S" "S < 86400" using assms unfolding time_in_day_def S_def by auto
  have "epoch_seconds t = S + toordinal t * 86400" unfolding epoch_seconds_def S_def by simp
  then show ?thesis using S by simp
qed

lemma timedelta_of_simps:
  "timedelta_of 1 0 0 = \<lparr>days = 1, seconds = 0, microseconds = 0\<rparr>"
  "timedelta_of 0 1 0 = \<lparr>days = 0, seconds = 3600, microseconds = 0\<rparr>"
  "timedelta_of 0 5 30 = \<lparr>days = 0, seconds = 19800, microseconds = 0\<rparr>"
  by (simp_all add: timedelta_of_def)

lemma add_day_toordinal:
  assumes "time_in_day t" "datetime_add t (timedelta_of 1 0 0) = Inr t1"
  shows "toordinal t1 = toordinal t + 1"
proof -
  have "epoch_seconds t1 = epoch_seconds t + 86400"
    using datetime_add_epoch_seconds[OF assms(2)] by (simp add: timedelta_of_simps)
  then have "epoch_seconds t1 div 86400 = epoch_seconds t div 86400 + 1" by simp
  then show ?thesis
    using epoch_seconds_toordinal[OF assms(1)]
      epoch_seconds_toordinal[OF datetime_add_time_in_day[OF assms(2)]] by simp
qed


lemma as_timedelta_valid:
  assumes "valid_datetime t"
  shows "as_timedelta t = \<lparr>days = toordinal t,
           seconds = hour t * 3600 + minute t * 60 + second t,
           microseconds = microsecond t\<rparr>"
proof -
  have u: "microsecond t div 1000000 = 0" "microsecond t mod 1000000 = microsecond t"
    using assms by (simp_all add: valid_datetime_def)
  have "0 \<le> hour t * 3600 + minute t * 60 + second t"
    "hour t * 3600 + minute t * 60 + second t < 86400"
    using assms by (auto simp: valid_datetime_def)
  then have s: "(hour t * 3600 + minute t * 60 + second t) div 86400 = 0"
    "(hour t * 3600 + minute t * 60 + second t) mod 86400
       = hour t * 3600 + minute t * 60 + second t"
    by simp_all
  show ?thesis
    by (rule timedelta.equality) (simp_all add: as_timedelta_fields u s)
qed

lemma datetime_add_valid_unfold:
  assumes "valid_datetime t" "microseconds td = 0"
    and "s = hour t * 3600 + minute t * 60 + second t + seconds td"
    and "d = toordinal t + days td + s div 86400"
  shows "datetime_add t td =
     (if 0 < d \<and> d \<le> MAXORDINAL
      then Inr \<lparr>toordinal = d, hour = (s mod 86400) div 3600,
                minute = ((s mod 86400) mod 3600) div 60,
                second = ((s mod 86400) mod 3600) mod 60, microsecond = microsecond t\<rparr>
      else Inl OverflowError)"
proof -
  have u: "microsecond t div 1000000 = 0" "microsecond t mod 1000000 = microsecond t"
    using assms(1) by (simp_all add: valid_datetime_def)
  have "timedelta_add (as_timedelta t) td
      = \<lparr>days = d, seconds = s mod 86400, microseconds = microsecond t\<rparr>"
    unfolding as_timedelta_valid[OF assms(1)] timedelta_add_def Let_def
    using assms(2) by (simp add: u assms(3,4))
  then show ?thesis
    unfolding datetime_add_def Let_def by simp
qed

lemma datetime_add_valid:
  assumes "datetime_add t td = Inr t1"
  shows "valid_datetime t1"
proof -
  define D where "D = timedelta_add (as_timedelta t) td"
  have r: "0 \<le> seconds D" "seconds D < 86400" "0 \<le> microseconds D" "microseconds D < 1000000"
    unfolding D_def by (rule timedelta_add_range)+
  have f: "hour t1 = seconds D div 3600" "minute t1 = (seconds D mod 3600) div 60"
    "second t1 = (seconds D mod 3600) mod 60" "microsecond t1 = microseconds D"
    "0 < toordinal t1" "toordinal t1 \<le> MAXORDINAL"
    unfolding D_def using datetime_add_Inr[OF assms] by simp_all
  have "0 \<le> hour t1" "hour t1 < 24" unfolding f using r by auto
  moreover have "0 \<le> minute t1" "minute t1 < 60" unfolding f by auto
  moreover have "0 \<le> second t1" "second t1 < 60" unfolding f by auto
  ultimately show ?thesis
    unfolding valid_datetime_def using f(4,5,6) r(3,4) by simp
qed

lemma datetime_add_day:
  assumes "valid_datetime t"
  shows "datetime_add t (timedelta_of 1 0 0) =
     (if toordinal t < MAXORDINAL then Inr (t\<lparr>toordinal := toordinal t + 1\<rparr>)
      else Inl OverflowError)"
proof -
  define s where "s = hour t * 3600 + minute t * 60 + second t"
  have v: "0 \<le> minute t" "minute t < 60" "0 \<le> second t" "second t < 60"
    "0 \<le> hour t" "hour t < 24" "1 \<le> toordinal t"
    using assms by (simp_all add: valid_datetime_def)
  have s: "0 \<le> s" "s < 86400" unfolding s_def using v by auto
  have s1: "s div 86400 = 0" "s mod 86400 = s" using s by simp_all
  have h: "s div 3600 = hour t" "s mod 3600 = minute t * 60 + second t"
    unfolding s_def using hms_split[OF v(1-4)] by simp_all
  have m: "(minute t * 60 + second t) div 60 = minute t"
    "(minute t * 60 + second t) mod 60 = second t"
    using ms_split[OF v(1-4)] by simp_all
  have u: "datetime_add t (timedelta_of 1 0 0) =
     (if 0 < toordinal t + 1 + s div 86400 \<and> toordinal t + 1 + s div 86400 \<le> MAXORDINAL
      then Inr \<lparr>toordinal = toordinal t + 1 + s div 86400, hour = (s mod 86400) div 3600,
                minute = ((s mod 86400) mod 3600) div 60,
                second = ((s mod 86400) mod 3600) mod 60, microsecond = microsecond t\<rparr>
      else Inl OverflowError)"
    using datetime_add_valid_unfold[OF assms, of "timedelta_of 1 0 0" s
        "toordinal t + 1 + s div 86400"]
    by (simp add: timedelta_of_simps s_def)
  show ?thesis unfolding u s1 h m using v(7) by auto
qed

lemma datetime_add_hour:
  assumes "valid_datetime t"
  shows "datetime_add t (timedelta_of 0 1 0) =
     (if hour t < 23 then Inr (t\<lparr>hour := hour t + 1\<rparr>)
      else if toordinal t < MAXORDINAL then Inr (t\<lparr>toordinal := toordinal t + 1, hour := 0\<rparr>)
      else Inl OverflowError)"
proof -
  define r where "r = minute t * 60 + second t"
  define s where "s = hour t * 3600 + minute t * 60 + second t + 3600"
  have v: "0 \<le> minute t" "minute t < 60" "0 \<le> second t" "second t < 60"
    "0 \<le> hour t" "hour t < 24" "1 \<le> toordinal t" "toordinal t \<le> MAXORDINAL"
    using assms by (simp_all add: valid_datetime_def)
  have r: "0 \<le> r" "r < 3600" unfolding r_def using v by auto
  have m: "r div 60 = minute t" "r mod 60 = second t"
    unfolding r_def using ms_split[OF v(1-4)] by simp_all
  have u: "datetime_add t (timedelta_of 0 1 0) =
     (if 0 < toordinal t + s div 86400 \<and> toordinal t + s div 86400 \<le> MAXORDINAL
      then Inr \<lparr>toordinal = toordinal t + s div 86400, hour = (s mod 86400) div 3600,
                minute = ((s mod 86400) mod 3600) div 60,
                second = ((s mod 86400) mod 3600) mod 60, microsecond = microsecond t\<rparr>
      else Inl OverflowError)"
    using datetime_add_valid_unfold[OF assms, of "timedelta_of 0 1 0" s "toordinal t + s div 86400"]
    by (simp add: timedelta_of_simps s_def)
  show ?thesis
  proof (cases "hour t < 23")
    case True
    have se: "s = (hour t + 1) * 3600 + minute t * 60 + second t"
      unfolding s_def by (simp add: algebra_simps)
    have "0 \<le> s" "s < 86400" unfolding s_def using v True by auto
    then have s1: "s div 86400 = 0" "s mod 86400 = s" by simp_all
    have h: "s div 3600 = hour t + 1" "s mod 3600 = r"
      unfolding se r_def using hms_split[OF v(1-4), of "hour t + 1"] by simp_all
    show ?thesis unfolding u s1 h m using True v(7,8) by simp
  next
    case False
    then have h23: "hour t = 23" using v by simp
    have se: "s = r + 1 * 86400" unfolding s_def r_def h23 by simp
    have s1: "s div 86400 = 1" "s mod 86400 = r"
      unfolding se using r by simp_all
    have h: "r div 3600 = 0" "r mod 3600 = r" using r by simp_all
    show ?thesis unfolding u s1 h m using False v(7,8) by auto
  qed
qed

section \<open>Working-hours clamp (\<^verbatim>\<open>autointerviewbot.py\<close>)\<close>

definition weekend_distance :: "datetime \<Rightarrow> nat" where
  \<comment> \<open>how many days a weekend day is away from Monday; bounds both loops below\<close>
  "weekend_distance t =
     (if weekday t < 5 then 0 else if time_in_day t then nat (7 - weekday t) else 3)"

lemma weekday_replace_time [simp]: "weekday (replace_time t h m s u) = weekday t"
  by (simp add: weekday_def replace_time_def)

lemma weekday_range: "0 \<le> weekday t \<and> weekday t < 7"
  by (simp add: weekday_def)

lemma replace_time_9_in_day: "time_in_day (replace_time t 9 0 0 0)"
  by (simp add: time_in_day_def replace_time_def)

lemma weekday_add_day:
  assumes "time_in_day t" "datetime_add t (timedelta_of 1 0 0) = Inr t1"
  shows "weekday t1 = (weekday t + 1) mod 7"
  unfolding weekday_def add_day_toordinal[OF assms]
  by (simp add: mod_simps algebra_simps)

lemma weekend_distance_add_day:
  assumes "weekday t \<ge> 5" "datetime_add t (timedelta_of 1 0 0) = Inr t1"
  shows "weekend_distance t1 < weekend_distance t"
proof (cases "time_in_day t")
  case True
  have in1: "time_in_day t1" by (rule datetime_add_time_in_day[OF assms(2)])
  have "weekday t = 5 \<or> weekday t = 6"
    using assms(1) weekday_range[of t] by arith
  then show ?thesis
    using True in1 weekday_add_day[OF True assms(2)] by (auto simp: weekend_distance_def)
next
  case False
  have in1: "time_in_day t1" by (rule datetime_add_time_in_day[OF assms(2)])
  have "weekday t1 < 7" "0 \<le> weekday t1" using weekday_range[of t1] by auto
  then have "weekend_distance t1 \<le> 2" using in1 by (auto simp: weekend_distance_def)
  moreover have "weekend_distance t = 3"
    using False assms(1) by (simp add: weekend_distance_def)
  ultimately show ?thesis by simp
qed

lemma weekend_distance_add_day_reset:
  assumes "weekday t \<ge> 5" "datetime_add t (timedelta_of 1 0 0) = Inr t1"
  shows "weekend_distance (replace_time t1 9 0 0 0) < weekend_distance t"
proof -
  have "weekend_distance (replace_time t1 9 0 0 0) = weekend_distance t1"
    using datetime_add_time_in_day[OF assms(2)]
    by (simp add: weekend_distance_def replace_time_9_in_day)
  then show ?thesis using weekend_distance_add_day[OF assms] by simp
qed

text \<open>
  The first loop of \<^verbatim>\<open>clamp_to_working_hours\<close>:
  \<^verbatim>\<open>while ist_dt.weekday() >= 5: ist_dt += timedelta(days=1); ist_dt = ist_dt.replace(hour=9, minute=0, second=0, microsecond=0)\<close>
\<close>

function clamp_weekend_loop :: "datetime \<Rightarrow> error + datetime" where
  "clamp_weekend_loop ist_dt =
     (if weekday ist_dt \<ge> 5
      then (case datetime_add ist_dt (timedelta_of 1 0 0) of
              Inl e \<Rightarrow> Inl e
            | Inr t1 \<Rightarrow> clamp_weekend_loop (replace_time t1 9 0 0 0))
      else Inr ist_dt)"
  by pat_completeness auto
termination
  by (relation "measure weekend_distance") (auto simp: weekend_distance_add_day_reset)

declare clamp_weekend_loop.simps [simp del]

text \<open>
  The loop of the \<^verbatim>\<open>elif ist_dt.hour >= 19\<close> branch:
  \<^verbatim>\<open>while ist_dt.weekday() >= 5: ist_dt += timedelta(days=1)\<close>
\<close>

function clamp_rollover_loop :: "datetime \<Rightarrow> error + datetime" where
  "clamp_rollover_loop ist_dt =
     (if weekday ist_dt \<ge> 5
      then (case datetime_add ist_dt (timedelta_of 1 0 0) of
              Inl e \<Rightarrow> Inl e
            | Inr t1 \<Rightarrow> clamp_rollover_loop t1)
      else Inr ist_dt)"
  by pat_completeness auto
termination
  by (relation "measure weekend_distance") (auto simp: weekend_distance_add_day)

declare clamp_rollover_loop.simps [simp del]

definition clamp_to_working_hours :: "datetime \<Rightarrow> error + datetime" where
  "clamp_to_working_hours ist_dt =
     (case clamp_weekend_loop ist_dt of
        Inl e \<Rightarrow> Inl e
      | Inr t1 \<Rightarrow>
          if hour t1 < 9 then Inr (replace_time t1 9 0 0 0)
          else if hour t1 \<ge> 19 then
            (case datetime_add t1 (timedelta_of 1 0 0) of
               Inl e \<Rightarrow> Inl e
             | Inr t2 \<Rightarrow>
                 (case clamp_rollover_loop t2 of
                    Inl e \<Rightarrow> Inl e
                  | Inr t3 \<Rightarrow> Inr (replace_time t3 9 0 0 0)))
          else Inr t1)"

section \<open>The clock and the calendar service\<close>

text \<open>
  The programs read the clock (\<^verbatim>\<open>datetime.utcnow()\<close>) and call the remote free/busy
  query (\<^verbatim>\<open>service.freebusy().query(body=body).execute()\<close>).  Both are outside the
  program: the environment fixes what the \<open>k\<close>-th clock reading returns and what the
  \<open>k\<close>-th query returns for the body it is sent, and the world counts the readings and
  the queries made so far.  Any behaviour of the clock and of the service over one run is
  such a pair of tapes.
\<close>

type_synonym busy_period = "string \<times> string"
  \<comment> \<open>one entry of a \<^verbatim>\<open>"busy"\<close> list: its \<^verbatim>\<open>"start"\<close> and \<^verbatim>\<open>"end"\<close>\<close>

type_synonym response = "string \<rightharpoonup> (string \<rightharpoonup> (string \<rightharpoonup> busy_period list))"
  \<comment> \<open>the nested dictionaries read by \<^verbatim>\<open>response["calendars"][email]["busy"]\<close>\<close>

record freebusy_body =
  timeMin :: datetime   \<comment> \<open>sent as \<^verbatim>\<open>start_utc.isoformat() + "Z"\<close>\<close>
  timeMax :: datetime   \<comment> \<open>sent as \<^verbatim>\<open>end_utc.isoformat() + "Z"\<close>\<close>
  timeZone :: string
  items :: "string list"

record environment =
  utcnow_tape :: "nat \<Rightarrow> datetime"
  freebusy_tape :: "nat \<Rightarrow> freebusy_body \<Rightarrow> error + response"

record world =
  clock_reads :: nat
  queries :: nat

definition RECRUITER_EMAIL :: string where
  "RECRUITER_EMAIL = ''bvsuyameendra@gmail.com''"

definition CANDIDATE_EMAIL :: string where
  "CANDIDATE_EMAIL = ''manchemvishnusrikar@gmail.com''"

definition get_now_ist :: "environment \<Rightarrow> world \<Rightarrow> (error + datetime) \<times> world" where
  "get_now_ist env w =
     (let now_utc = utcnow_tape env (clock_reads w)
      in (datetime_add now_utc (timedelta_of 0 5 30), w\<lparr>clock_reads := clock_reads w + 1\<rparr>))"

definition to_utc :: "datetime \<Rightarrow> error + datetime" where
  "to_utc ist_dt = datetime_sub ist_dt (timedelta_of 0 5 30)"

definition get_busy_slots ::
  "environment \<Rightarrow> string \<Rightarrow> datetime \<Rightarrow> datetime \<Rightarrow> world
     \<Rightarrow> (error + busy_period list) \<times> world" where
  "get_busy_slots env email start_ist end_ist w =
     (case to_utc start_ist of
        Inl e \<Rightarrow> (Inl e, w)
      | Inr start_utc \<Rightarrow>
     (case to_utc end_ist of
        Inl e \<Rightarrow> (Inl e, w)
      | Inr end_utc \<Rightarrow>
     (let body = \<lparr>timeMin = start_utc, timeMax = end_utc, timeZone = ''UTC'',
                  items = [email]\<rparr>;
          w1 = w\<lparr>queries := queries w + 1\<rparr>
      in case freebusy_tape env (queries w) body of
           Inl e \<Rightarrow> (Inl e, w1)
         | Inr response \<Rightarrow>
        (case response ''calendars'' of
           None \<Rightarrow> (Inl KeyError, w1)
         | Some calendars \<Rightarrow>
        (case calendars email of
           None \<Rightarrow> (Inl KeyError, w1)
         | Some calendar \<Rightarrow>
        (case calendar ''busy'' of
           None \<Rightarrow> (Inl KeyError, w1)
         | Some busy \<Rightarrow> (Inr busy, w1)))))))"

definition is_slot_free_for_both ::
  "environment \<Rightarrow> string \<Rightarrow> string \<Rightarrow> datetime \<Rightarrow> datetime \<Rightarrow> world
     \<Rightarrow> (error + bool) \<times> world" where
  \<comment> \<open>the same text in both files\<close>
  "is_slot_free_for_both env recruiter candidate start_ist end_ist w =
     (case get_busy_slots env recruiter start_ist end_ist w of
        (Inl e, w1) \<Rightarrow> (Inl e, w1)
      | (Inr recruiter_busy, w1) \<Rightarrow>
     (case get_busy_slots env candidate start_ist end_ist w1 of
        (Inl e, w2) \<Rightarrow> (Inl e, w2)
      | (Inr candidate_busy, w2) \<Rightarrow>
          (Inr (recruiter_busy = [] \<and> candidate_busy = []), w2)))"

section \<open>Seed-time search (\<^verbatim>\<open>autointerviewbot.py\<close>)\<close>

definition clamp_to_future_2025 ::
  "environment \<Rightarrow> datetime \<Rightarrow> world \<Rightarrow> (error + datetime) \<times> world" where
  "clamp_to_future_2025 env ist_dt w =
     (case get_now_ist env w of
        (Inl e, w1) \<Rightarrow> (Inl e, w1)
      | (Inr now_ist, w1) \<Rightarrow>
     (case (if year ist_dt < 2025 then replace_year ist_dt 2025 else Inr ist_dt) of
        Inl e \<Rightarrow> (Inl e, w1)
      | Inr ist_dt1 \<Rightarrow>
     (case new_datetime 2025 (month now_ist) (day now_ist) (hour now_ist) (minute now_ist)
             (second now_ist) (microsecond now_ist) of
        Inl e \<Rightarrow> (Inl e, w1)
      | Inr virtual_2025 \<Rightarrow>
          (Inr (if datetime_less ist_dt1 virtual_2025 then virtual_2025 else ist_dt1), w1))))"

definition max_attempts :: nat where
  "max_attempts = 3000"

text \<open>
  The \<^verbatim>\<open>while attempts < max_attempts\<close> loop of \<^verbatim>\<open>find_first_free_slot\<close>.  Besides the
  value returned (or the exception raised) the model hands back the final value of the
  loop counter \<^verbatim>\<open>attempts\<close>, which counts the hourly advances made.
\<close>

function find_first_free_slot_loop ::
  "environment \<Rightarrow> datetime \<Rightarrow> nat \<Rightarrow> world \<Rightarrow> (error + datetime option) \<times> nat \<times> world" where
  "find_first_free_slot_loop env current attempts w =
     (if attempts < max_attempts then
        (case clamp_to_future_2025 env current w of
           (Inl e, w1) \<Rightarrow> (Inl e, attempts, w1)
         | (Inr c1, w1) \<Rightarrow>
        (case clamp_to_working_hours c1 of
           Inl e \<Rightarrow> (Inl e, attempts, w1)
         | Inr c2 \<Rightarrow>
        (case datetime_add c2 (timedelta_of 0 1 0) of
           Inl e \<Rightarrow> (Inl e, attempts, w1)
         | Inr end_current \<Rightarrow>
        (case is_slot_free_for_both env RECRUITER_EMAIL CANDIDATE_EMAIL c2 end_current w1 of
           (Inl e, w2) \<Rightarrow> (Inl e, attempts, w2)
         | (Inr is_free, w2) \<Rightarrow>
             if is_free then (Inr (Some c2), attempts, w2)
             else find_first_free_slot_loop env end_current (attempts + 1) w2))))
      else (Inr None, attempts, w))"
  by pat_completeness auto
termination
  by (relation "measure (\<lambda>(env, current, attempts, w). max_attempts - attempts)") auto

declare find_first_free_slot_loop.simps [simp del]

definition find_first_free_slot ::
  "environment \<Rightarrow> datetime \<Rightarrow> world \<Rightarrow> (error + datetime option) \<times> world" where
  "find_first_free_slot env start_ist w =
     (case find_first_free_slot_loop env start_ist 0 w of (r, attempts, w') \<Rightarrow> (r, w'))"

section \<open>Range-constrained search (\<^verbatim>\<open>textbasedbot.py\<close>)\<close>

lemma datetime_le_toordinal: "datetime_le a b \<Longrightarrow> toordinal a \<le> toordinal b"
  by (auto simp: datetime_le_def cmp_key_def)

lemma range_loop_measure:
  assumes "datetime_add current (timedelta_of 0 1 0) = Inr slot_end"
    and "datetime_le slot_end candidate_end"
  shows "epoch_seconds current < epoch_seconds slot_end"
    and "epoch_seconds current < toordinal candidate_end * 86400 + 86400"
proof -
  have e: "epoch_seconds slot_end = epoch_seconds current + 3600"
    using datetime_add_epoch_seconds[OF assms(1)] by (simp add: timedelta_of_simps)
  have "epoch_seconds slot_end < (toordinal slot_end + 1) * 86400"
    by (rule time_in_day_epoch(2)[OF datetime_add_time_in_day[OF assms(1)]])
  also have "\<dots> \<le> (toordinal candidate_end + 1) * 86400"
    using datetime_le_toordinal[OF assms(2)] by simp
  finally have b: "epoch_seconds slot_end < toordinal candidate_end * 86400 + 86400"
    by simp
  show "epoch_seconds current < epoch_seconds slot_end" using e by simp
  show "epoch_seconds current < toordinal candidate_end * 86400 + 86400" using e b by simp
qed

text \<open>
  The \<^verbatim>\<open>while current + timedelta(hours=1) <= candidate_end\<close> loop of
  \<^verbatim>\<open>find_1hr_slot_within_range\<close>.
\<close>

function find_1hr_slot_loop ::
  "environment \<Rightarrow> datetime \<Rightarrow> datetime \<Rightarrow> world
     \<Rightarrow> (error + (datetime \<times> datetime) option) \<times> world" where
  "find_1hr_slot_loop env current candidate_end w =
     (case datetime_add current (timedelta_of 0 1 0) of
        Inl e \<Rightarrow> (Inl e, w)
      | Inr slot_end \<Rightarrow>
          if datetime_le slot_end candidate_end then
            (case is_slot_free_for_both env RECRUITER_EMAIL CANDIDATE_EMAIL current slot_end w of
               (Inl e, w1) \<Rightarrow> (Inl e, w1)
             | (Inr is_free, w1) \<Rightarrow>
                 if is_free then (Inr (Some (current, slot_end)), w1)
                 else find_1hr_slot_loop env slot_end candidate_end w1)
          else (Inr None, w))"
  by pat_completeness auto
termination
  by (relation "measure (\<lambda>(env, current, candidate_end, w).
        nat ((toordinal candidate_end + 1) * 86400 - epoch_seconds current))")
     (auto simp: range_loop_measure)

declare find_1hr_slot_loop.simps [simp del]

definition find_1hr_slot_within_range ::
  "environment \<Rightarrow> datetime \<Rightarrow> datetime \<Rightarrow> world
     \<Rightarrow> (error + (datetime \<times> datetime) option) \<times> world" where
  "find_1hr_slot_within_range env candidate_start candidate_end w =
     (let current = candidate_start\<lparr>minute := 0, second := 0, microsecond := 0\<rparr>
      in case (if datetime_less current candidate_start
               then datetime_add current (timedelta_of 0 1 0) else Inr current) of
           Inl e \<Rightarrow> (Inl e, w)
         | Inr current1 \<Rightarrow> find_1hr_slot_loop env current1 candidate_end w)"

section \<open>Reference statements and example environments\<close>

text \<open>
  The case split the specification gives for the working-hours clamp, written from its
  words: while \<open>t\<close> falls on Saturday or Sunday, advance one full day and reset the time of
  day to 09:00; else if the hour is before 9, 09:00 on the same day; else if the hour is
  19 or later, the next day at 09:00 followed by the weekend skip; else \<open>t\<close> unchanged.
\<close>

function skip_weekend_spec :: "datetime \<Rightarrow> error + datetime" where
  "skip_weekend_spec t =
     (if weekday t = 5 \<or> weekday t = 6
      then (case datetime_add t (timedelta_of 1 0 0) of
              Inl e \<Rightarrow> Inl e
            | Inr t1 \<Rightarrow> skip_weekend_spec (replace_time t1 9 0 0 0))
      else Inr t)"
  by pat_completeness auto
termination
  by (relation "measure weekend_distance") (auto simp: weekend_distance_add_day_reset)

declare skip_weekend_spec.simps [simp del]

definition clampToWorkingHours_spec :: "datetime \<Rightarrow> error + datetime" where
  "clampToWorkingHours_spec t =
     (if weekday t = 5 \<or> weekday t = 6 then skip_weekend_spec t
      else if hour t < 9 then Inr (replace_time t 9 0 0 0)
      else if hour t \<ge> 19 then
        (case datetime_add t (timedelta_of 1 0 0) of
           Inl e \<Rightarrow> Inl e
         | Inr t1 \<Rightarrow> skip_weekend_spec (replace_time t1 9 0 0 0))
      else Inr t)"

text \<open>Concrete datetimes for the examples: \<open>y-m-d hh:mm:00\<close>.\<close>

definition at :: "int \<Rightarrow> int \<Rightarrow> int \<Rightarrow> int \<Rightarrow> int \<Rightarrow> datetime" where
  "at y m d hh mm =
     \<lparr>toordinal = ymd2ord y m d, hour = hh, minute = mm, second = 0, microsecond = 0\<rparr>"

text \<open>
  The floor of \<^verbatim>\<open>clamp_to_future_2025\<close>: the current moment (IST) re-anchored to the
  reference year 2025, with month, day and time of day preserved; and the floor that
  belongs to the \<open>k\<close>-th reading of the clock.
\<close>

definition virtual_2025 :: "datetime \<Rightarrow> error + datetime" where
  "virtual_2025 now_ist =
     new_datetime 2025 (month now_ist) (day now_ist) (hour now_ist) (minute now_ist)
       (second now_ist) (microsecond now_ist)"

definition reanchored_now :: "environment \<Rightarrow> nat \<Rightarrow> error + datetime" where
  "reanchored_now env k =
     (case datetime_add (utcnow_tape env k) (timedelta_of 0 5 30) of
        Inl e \<Rightarrow> Inl e
      | Inr now_ist \<Rightarrow> virtual_2025 now_ist)"

text \<open>
  Environments for the examples: the clock stands at one moment (UTC) and the service
  answers every query with an empty, respectively a one-entry, busy list for the
  identity asked about.
\<close>

definition free_response :: response where
  "free_response = [''calendars'' \<mapsto> (\<lambda>email. Some [''busy'' \<mapsto> []])]"

definition busy_response :: response where
  "busy_response =
     [''calendars'' \<mapsto>
        (\<lambda>email. Some [''busy'' \<mapsto> [(''2025-03-24T08:30:00Z'', ''2025-03-24T09:30:00Z'')]])]"

definition always_free :: "datetime \<Rightarrow> environment" where
  "always_free now_utc =
     \<lparr>utcnow_tape = (\<lambda>k. now_utc), freebusy_tape = (\<lambda>k body. Inr free_response)\<rparr>"

definition always_busy :: "datetime \<Rightarrow> environment" where
  "always_busy now_utc =
     \<lparr>utcnow_tape = (\<lambda>k. now_utc), freebusy_tape = (\<lambda>k body. Inr busy_response)\<rparr>"

definition start_world :: world where
  "start_world = \<lparr>clock_reads = 0, queries = 0\<rparr>"

text \<open>
  One pass through the body of the \<^verbatim>\<open>while\<close> loop of \<^verbatim>\<open>find_first_free_slot\<close>, used to
  state and prove properties of the loop: it raises, returns the candidate it found, or
  advances to the next hour.
\<close>

datatype 'a iteration = Raised error | Found 'a | Advance datetime

definition seed_iteration ::
  "environment \<Rightarrow> datetime \<Rightarrow> world \<Rightarrow> datetime iteration \<times> world" where
  "seed_iteration env current w =
     (case clamp_to_future_2025 env current w of
        (Inl e, w1) \<Rightarrow> (Raised e, w1)
      | (Inr c1, w1) \<Rightarrow>
     (case clamp_to_working_hours c1 of
        Inl e \<Rightarrow> (Raised e, w1)
      | Inr c2 \<Rightarrow>
     (case datetime_add c2 (timedelta_of 0 1 0) of
        Inl e \<Rightarrow> (Raised e, w1)
      | Inr end_current \<Rightarrow>
     (case is_slot_free_for_both env RECRUITER_EMAIL CANDIDATE_EMAIL c2 end_current w1 of
        (Inl e, w2) \<Rightarrow> (Raised e, w2)
      | (Inr is_free, w2) \<Rightarrow>
          if is_free then (Found c2, w2) else (Advance end_current, w2)))))"

text \<open>
  What the service says about one identity in a response, and the two oracles of the
  test scenarios: one that reports every queried interval free and one that reports every
  queried interval busy, for whoever is asked about.
\<close>

definition busy_of :: "response \<Rightarrow> string \<Rightarrow> busy_period list option" where
  "busy_of response email =
     (case response ''calendars'' of
        None \<Rightarrow> None
      | Some calendars \<Rightarrow>
          (case calendars email of None \<Rightarrow> None | Some calendar \<Rightarrow> calendar ''busy''))"

definition reports_free :: "environment \<Rightarrow> bool" where
  "reports_free env \<longleftrightarrow>
     (\<forall>k body. \<exists>response. freebusy_tape env k body = Inr response
         \<and> (\<forall>email \<in> set (items body). busy_of response email = Some []))"

definition reports_busy :: "environment \<Rightarrow> bool" where
  "reports_busy env \<longleftrightarrow>
     (\<forall>k body. \<exists>response. freebusy_tape env k body = Inr response
         \<and> (\<forall>email \<in> set (items body). \<exists>b bs. busy_of response email = Some (b # bs)))"

text \<open>
  The range-constrained search as the specification words it: round the start of the range
  up to the hour, list the hour-long slots \<open>[current, current + 1h)\<close> with
  \<open>current + 1h \<le> rangeEnd\<close> in increasing order, and ask the oracle about them one after
  the other until it reports one free.  The list ends with the error the library raises
  when \<open>current + 1h\<close> leaves the calendar, if it does.
\<close>

definition on_the_hour :: "datetime \<Rightarrow> bool" where
  "on_the_hour t \<longleftrightarrow> minute t = 0 \<and> second t = 0 \<and> microsecond t = 0"

definition round_up_to_hour :: "datetime \<Rightarrow> error + datetime" where
  "round_up_to_hour t =
     (if on_the_hour t then Inr t
      else datetime_add (t\<lparr>minute := 0, second := 0, microsecond := 0\<rparr>) (timedelta_of 0 1 0))"

function hourly_slots ::
  "datetime \<Rightarrow> datetime \<Rightarrow> (datetime \<times> datetime) list \<times> error option" where
  "hourly_slots current range_end =
     (case datetime_add current (timedelta_of 0 1 0) of
        Inl e \<Rightarrow> ([], Some e)
      | Inr slot_end \<Rightarrow>
          if datetime_le slot_end range_end
          then (case hourly_slots slot_end range_end of
                  (slots, raised) \<Rightarrow> ((current, slot_end) # slots, raised))
          else ([], None))"
  by pat_completeness auto
termination
  by (relation "measure (\<lambda>(current, range_end).
        nat ((toordinal range_end + 1) * 86400 - epoch_seconds current))")
     (auto simp: range_loop_measure)

declare hourly_slots.simps [simp del]

fun probe_slots ::
  "environment \<Rightarrow> (datetime \<times> datetime) list \<Rightarrow> error option \<Rightarrow> world
     \<Rightarrow> (error + (datetime \<times> datetime) option) \<times> world" where
  "probe_slots env [] raised w =
     (case raised of None \<Rightarrow> (Inr None, w) | Some e \<Rightarrow> (Inl e, w))"
| "probe_slots env ((slot_start, slot_end) # slots) raised w =
     (case is_slot_free_for_both env RECRUITER_EMAIL CANDIDATE_EMAIL slot_start slot_end w of
        (Inl e, w1) \<Rightarrow> (Inl e, w1)
      | (Inr is_free, w1) \<Rightarrow>
          if is_free then (Inr (Some (slot_start, slot_end)), w1)
          else probe_slots env slots raised w1)"

fun consecutive_from :: "datetime \<Rightarrow> (datetime \<times> datetime) list \<Rightarrow> bool" where
  "consecutive_from current [] = True"
| "consecutive_from current ((slot_start, slot_end) # slots) =
     (slot_start = current \<and> datetime_add slot_start (timedelta_of 0 1 0) = Inr slot_end
      \<and> consecutive_from slot_end slots)"

text \<open>An oracle that fails on the second identity's query only.\<close>

definition candidate_query_fails :: "datetime \<Rightarrow> environment" where
  "candidate_query_fails now_utc =
     \<lparr>utcnow_tape = (\<lambda>k. now_utc),
      freebusy_tape = (\<lambda>k body. if items body = [CANDIDATE_EMAIL]
                                  then Inl (QueryError ''503 backend error'')
                                  else Inr free_response)\<rparr>"

text \<open>
  A service whose \<open>k\<close>-th query fails, whatever it is asked, and that gives one fixed answer
  to every other query.
\<close>

definition query_fails_at :: "nat \<Rightarrow> response \<Rightarrow> datetime \<Rightarrow> environment" where
  "query_fails_at k answer now_utc =
     \<lparr>utcnow_tape = (\<lambda>j. now_utc),
      freebusy_tape = (\<lambda>j body. if j = k then Inl (QueryError ''503 backend error'')
                                  else Inr answer)\<rparr>"

section \<open>Properties of the library operations and of the clamp loops\<close>

subsection \<open>Order on datetimes\<close>

lemma datetime_le_refl [simp]: "datetime_le t t"
  by (simp add: datetime_le_def)

lemma datetime_le_trans: "datetime_le a b \<Longrightarrow> datetime_le b c \<Longrightarrow> datetime_le a c"
  unfolding datetime_le_def by (rule order_trans)

lemma datetime_less_le: "datetime_less a b \<longleftrightarrow> \<not> datetime_le b a"
  unfolding datetime_le_def datetime_less_def by (rule less_le_not_le[THEN trans]) auto

lemma datetime_le_ordinal_less: "toordinal a < toordinal b \<Longrightarrow> datetime_le a b"
  by (simp add: datetime_le_def cmp_key_def)

lemma valid_replace_time_9: "valid_datetime t \<Longrightarrow> valid_datetime (replace_time t 9 0 0 0)"
  by (simp add: valid_datetime_def replace_time_def)

subsection \<open>The two weekend loops\<close>

lemma clamp_weekend_loop_weekday:
  "clamp_weekend_loop t = Inr t' \<Longrightarrow> weekday t' < 5"
proof (induction t rule: clamp_weekend_loop.induct)
  case (1 t)
  show ?case
  proof (cases "weekday t \<ge> 5")
    case True
    then obtain t1 where a: "datetime_add t (timedelta_of 1 0 0) = Inr t1"
      and r: "clamp_weekend_loop (replace_time t1 9 0 0 0) = Inr t'"
      using "1.prems" by (subst (asm) clamp_weekend_loop.simps) (auto split: sum.splits)
    show ?thesis by (rule "1.IH"[OF True a r])
  next
    case False
    then show ?thesis using "1.prems" by (subst (asm) clamp_weekend_loop.simps) auto
  qed
qed

lemma clamp_weekend_loop_weekday_ok:
  "weekday t < 5 \<Longrightarrow> clamp_weekend_loop t = Inr t"
  by (subst clamp_weekend_loop.simps) simp

lemma clamp_rollover_loop_weekday_ok:
  "weekday t < 5 \<Longrightarrow> clamp_rollover_loop t = Inr t"
  by (subst clamp_rollover_loop.simps) simp

lemma clamp_weekend_loop_step:
  "weekday t \<ge> 5 \<Longrightarrow> clamp_weekend_loop t =
     (case datetime_add t (timedelta_of 1 0 0) of
        Inl e \<Rightarrow> Inl e
      | Inr t1 \<Rightarrow> clamp_weekend_loop (replace_time t1 9 0 0 0))"
  by (subst clamp_weekend_loop.simps) simp

lemma clamp_rollover_loop_step:
  "weekday t \<ge> 5 \<Longrightarrow> clamp_rollover_loop t =
     (case datetime_add t (timedelta_of 1 0 0) of
        Inl e \<Rightarrow> Inl e
      | Inr t1 \<Rightarrow> clamp_rollover_loop t1)"
  by (subst clamp_rollover_loop.simps) simp

lemma clamp_weekend_loop_nine:
  "weekday t \<ge> 5 \<Longrightarrow> clamp_weekend_loop t = Inr t' \<Longrightarrow>
     hour t' = 9 \<and> minute t' = 0 \<and> second t' = 0 \<and> microsecond t' = 0"
proof (induction t rule: clamp_weekend_loop.induct)
  case (1 t)
  from "1.prems" obtain t1 where a: "datetime_add t (timedelta_of 1 0 0) = Inr t1"
    and r: "clamp_weekend_loop (replace_time t1 9 0 0 0) = Inr t'"
    by (auto simp: clamp_weekend_loop_step split: sum.splits)
  show ?case
  proof (cases "weekday (replace_time t1 9 0 0 0) \<ge> 5")
    case True
    show ?thesis by (rule "1.IH"[OF "1.prems"(1) a True r])
  next
    case False
    then have "t' = replace_time t1 9 0 0 0"
      using r clamp_weekend_loop_weekday_ok[of "replace_time t1 9 0 0 0"] by simp
    then show ?thesis by (simp add: replace_time_def)
  qed
qed

lemma clamp_weekend_loop_le:
  "valid_datetime t \<Longrightarrow> clamp_weekend_loop t = Inr t' \<Longrightarrow>
     datetime_le t t' \<and> valid_datetime t'"
proof (induction t rule: clamp_weekend_loop.induct)
  case (1 t)
  show ?case
  proof (cases "weekday t \<ge> 5")
    case True
    from "1.prems"(2) True obtain t1 where a: "datetime_add t (timedelta_of 1 0 0) = Inr t1"
      and r: "clamp_weekend_loop (replace_time t1 9 0 0 0) = Inr t'"
      by (auto simp: clamp_weekend_loop_step split: sum.splits)
    have v1: "valid_datetime (replace_time t1 9 0 0 0)"
      by (rule valid_replace_time_9[OF datetime_add_valid[OF a]])
    have "toordinal t1 = toordinal t + 1"
      using a datetime_add_day[OF "1.prems"(1)] by (auto split: if_splits)
    then have "datetime_le t (replace_time t1 9 0 0 0)"
      by (intro datetime_le_ordinal_less) (simp add: replace_time_def)
    then show ?thesis
      using "1.IH"[OF True a v1 r] datetime_le_trans by blast
  next
    case False
    then show ?thesis using "1.prems" by (simp add: clamp_weekend_loop_weekday_ok)
  qed
qed

lemma clamp_rollover_loop_weekday:
  "clamp_rollover_loop t = Inr t' \<Longrightarrow> weekday t' < 5"
proof (induction t rule: clamp_rollover_loop.induct)
  case (1 t)
  show ?case
  proof (cases "weekday t \<ge> 5")
    case True
    then obtain t1 where a: "datetime_add t (timedelta_of 1 0 0) = Inr t1"
      and r: "clamp_rollover_loop t1 = Inr t'"
      using "1.prems" by (auto simp: clamp_rollover_loop_step split: sum.splits)
    show ?thesis by (rule "1.IH"[OF True a r])
  next
    case False
    then show ?thesis using "1.prems" by (simp add: clamp_rollover_loop_weekday_ok)
  qed
qed

lemma clamp_rollover_loop_le:
  "valid_datetime t \<Longrightarrow> clamp_rollover_loop t = Inr t' \<Longrightarrow>
     toordinal t \<le> toordinal t' \<and> valid_datetime t'"
proof (induction t rule: clamp_rollover_loop.induct)
  case (1 t)
  show ?case
  proof (cases "weekday t \<ge> 5")
    case True
    from "1.prems"(2) True obtain t1 where a: "datetime_add t (timedelta_of 1 0 0) = Inr t1"
      and r: "clamp_rollover_loop t1 = Inr t'"
      by (auto simp: clamp_rollover_loop_step split: sum.splits)
    have "toordinal t1 = toordinal t + 1"
      using a datetime_add_day[OF "1.prems"(1)] by (auto split: if_splits)
    then show ?thesis
      using "1.IH"[OF True a datetime_add_valid[OF a] r] by simp
  next
    case False
    then show ?thesis using "1.prems" by (simp add: clamp_rollover_loop_weekday_ok)
  qed
qed

lemma replace_time_fields [simp]:
  "toordinal (replace_time t h m s u) = toordinal t"
  "hour (replace_time t h m s u) = h"
  "minute (replace_time t h m s u) = m"
  "second (replace_time t h m s u) = s"
  "microsecond (replace_time t h m s u) = u"
  by (simp_all add: replace_time_def)

lemma weekend_iff: "weekday t = 5 \<or> weekday t = 6 \<longleftrightarrow> weekday t \<ge> 5"
  using weekday_range[of t] by arith

lemma skip_weekend_spec_eq: "skip_weekend_spec t = clamp_weekend_loop t"
proof (induction t rule: clamp_weekend_loop.induct)
  case (1 t)
  show ?case
  proof (cases "weekday t \<ge> 5")
    case True
    show ?thesis
    proof (cases "datetime_add t (timedelta_of 1 0 0)")
      case (Inl e)
      then show ?thesis
        using True by (subst skip_weekend_spec.simps) (simp add: clamp_weekend_loop_step weekend_iff)
    next
      case (Inr t1)
      then show ?thesis
        using True "1.IH"[OF True Inr]
        by (subst skip_weekend_spec.simps) (simp add: clamp_weekend_loop_step weekend_iff)
    qed
  next
    case False
    then show ?thesis
      by (subst skip_weekend_spec.simps) (simp add: clamp_weekend_loop_weekday_ok weekend_iff)
  qed
qed

lemma clamp_rollover_then_reset:
  "valid_datetime x \<Longrightarrow>
     (case clamp_rollover_loop x of Inl e \<Rightarrow> Inl e | Inr t3 \<Rightarrow> Inr (replace_time t3 9 0 0 0))
       = clamp_weekend_loop (replace_time x 9 0 0 0)"
proof (induction x rule: clamp_rollover_loop.induct)
  case (1 x)
  have vr: "valid_datetime (replace_time x 9 0 0 0)" by (rule valid_replace_time_9[OF "1.prems"])
  show ?case
  proof (cases "weekday x \<ge> 5")
    case True
    show ?thesis
    proof (cases "toordinal x < MAXORDINAL")
      case lt: True
      define x1 where "x1 = x\<lparr>toordinal := toordinal x + 1\<rparr>"
      have a: "datetime_add x (timedelta_of 1 0 0) = Inr x1"
        using datetime_add_day[OF "1.prems"] lt by (simp add: x1_def)
      have b: "datetime_add (replace_time x 9 0 0 0) (timedelta_of 1 0 0)
                 = Inr ((replace_time x 9 0 0 0)\<lparr>toordinal := toordinal x + 1\<rparr>)"
        using datetime_add_day[OF vr] lt by (simp add: replace_time_def)
      have c: "replace_time ((replace_time x 9 0 0 0)\<lparr>toordinal := toordinal x + 1\<rparr>) 9 0 0 0
                 = replace_time x1 9 0 0 0"
        by (simp add: replace_time_def x1_def)
      have "clamp_weekend_loop (replace_time x 9 0 0 0) = clamp_weekend_loop (replace_time x1 9 0 0 0)"
        using True by (simp add: clamp_weekend_loop_step b c)
      moreover have "clamp_rollover_loop x = clamp_rollover_loop x1"
        using True by (simp add: clamp_rollover_loop_step a)
      ultimately show ?thesis
        using "1.IH"[OF True a datetime_add_valid[OF a]] by simp
    next
      case ge: False
      have a: "datetime_add x (timedelta_of 1 0 0) = Inl OverflowError"
        using datetime_add_day[OF "1.prems"] ge by simp
      have b: "datetime_add (replace_time x 9 0 0 0) (timedelta_of 1 0 0) = Inl OverflowError"
        using datetime_add_day[OF vr] ge by (simp add: replace_time_def)
      show ?thesis using True by (simp add: clamp_weekend_loop_step clamp_rollover_loop_step a b)
    qed
  next
    case False
    then show ?thesis
      by (simp add: clamp_weekend_loop_weekday_ok clamp_rollover_loop_weekday_ok)
  qed
qed

lemma clamp_to_working_hours_range:
  assumes "clamp_to_working_hours t = Inr t'"
  shows "weekday t' < 5 \<and> 9 \<le> hour t' \<and> hour t' < 19"
proof -
  from assms obtain t1 where l: "clamp_weekend_loop t = Inr t1"
    unfolding clamp_to_working_hours_def by (auto split: sum.splits)
  have w1: "weekday t1 < 5" by (rule clamp_weekend_loop_weekday[OF l])
  consider "hour t1 < 9" | "hour t1 \<ge> 19" | "9 \<le> hour t1" "hour t1 < 19" by linarith
  then show ?thesis
  proof cases
    case 1
    then have "t' = replace_time t1 9 0 0 0"
      using assms l unfolding clamp_to_working_hours_def by simp
    then show ?thesis using w1 by simp
  next
    case 2
    then obtain t2 t3 where "clamp_rollover_loop t2 = Inr t3" "t' = replace_time t3 9 0 0 0"
      using assms l unfolding clamp_to_working_hours_def by (auto split: sum.splits)
    then show ?thesis using clamp_rollover_loop_weekday[of t2 t3] by simp
  next
    case 3
    then have "t' = t1" using assms l unfolding clamp_to_working_hours_def by simp
    then show ?thesis using w1 3 by simp
  qed
qed

lemma clamp_to_working_hours_noop:
  assumes "weekday t < 5" "9 \<le> hour t" "hour t < 19"
  shows "clamp_to_working_hours t = Inr t"
  unfolding clamp_to_working_hours_def using assms
  by (simp add: clamp_weekend_loop_weekday_ok)

lemma clamp_to_working_hours_le:
  assumes "valid_datetime t" "clamp_to_working_hours t = Inr t'"
  shows "datetime_le t t' \<and> valid_datetime t'"
proof -
  from assms(2) obtain t1 where l: "clamp_weekend_loop t = Inr t1"
    unfolding clamp_to_working_hours_def by (auto split: sum.splits)
  have le1: "datetime_le t t1" and v1: "valid_datetime t1"
    using clamp_weekend_loop_le[OF assms(1) l] by simp_all
  consider "hour t1 < 9" | "hour t1 \<ge> 19" | "9 \<le> hour t1" "hour t1 < 19" by linarith
  then have "datetime_le t1 t' \<and> valid_datetime t'"
  proof cases
    case 1
    then have "t' = replace_time t1 9 0 0 0"
      using assms(2) l unfolding clamp_to_working_hours_def by simp
    then show ?thesis
      using 1 valid_replace_time_9[OF v1]
      by (simp add: datetime_le_def cmp_key_def)
  next
    case 2
    then obtain t2 t3 where a: "datetime_add t1 (timedelta_of 1 0 0) = Inr t2"
      and r: "clamp_rollover_loop t2 = Inr t3" and e: "t' = replace_time t3 9 0 0 0"
      using assms(2) l unfolding clamp_to_working_hours_def by (auto split: sum.splits)
    have "toordinal t2 = toordinal t1 + 1"
      using a datetime_add_day[OF v1] by (auto split: if_splits)
    moreover have "toordinal t2 \<le> toordinal t3" "valid_datetime t3"
      using clamp_rollover_loop_le[OF datetime_add_valid[OF a] r] by simp_all
    ultimately show ?thesis
      unfolding e using valid_replace_time_9[of t3]
      by (simp add: datetime_le_ordinal_less)
  next
    case 3
    then have "t' = t1" using assms(2) l unfolding clamp_to_working_hours_def by simp
    then show ?thesis using v1 by simp
  qed
  then show ?thesis using le1 datetime_le_trans by blast
qed

subsection \<open>Months and days\<close>

lemma month_cases:
  fixes m :: int
  assumes "1 \<le> m" "m \<le> 12"
  obtains "m = 1" | "m = 2" | "m = 3" | "m = 4" | "m = 5" | "m = 6"
        | "m = 7" | "m = 8" | "m = 9" | "m = 10" | "m = 11" | "m = 12"
proof -
  have "m = 1 \<or> m = 2 \<or> m = 3 \<or> m = 4 \<or> m = 5 \<or> m = 6
      \<or> m = 7 \<or> m = 8 \<or> m = 9 \<or> m = 10 \<or> m = 11 \<or> m = 12"
    using assms by arith
  then show thesis using that by blast
qed

lemma month_estimate:
  fixes r :: int
  assumes "0 \<le> r" "r \<le> 364"
  shows "1 \<le> (r + 50) div 32" "(r + 50) div 32 \<le> 12"
    "32 * ((r + 50) div 32) \<le> r + 50" "r + 50 < 32 * ((r + 50) div 32) + 32"
  using assms by presburger+

lemma month_day_of_range:
  assumes "0 \<le> r" "r \<le> 364"
  shows "1 \<le> fst (month_day_of leap r) \<and> fst (month_day_of leap r) \<le> 12
       \<and> 1 \<le> snd (month_day_of leap r)
       \<and> snd (month_day_of leap r)
            \<le> DAYS_IN_MONTH (fst (month_day_of leap r))
                + (if fst (month_day_of leap r) = 2 \<and> leap then 1 else 0)"
proof -
  define k where "k = (r + 50) div 32"
  have k: "1 \<le> k" "k \<le> 12" "32 * k \<le> r + 50" "r + 50 < 32 * k + 32"
    unfolding k_def using month_estimate[OF assms] by simp_all
  have e: "month_day_of leap r =
     (let preceding = DAYS_BEFORE_MONTH k + (if k > 2 \<and> leap then 1 else 0)
      in if preceding > r
         then (k - 1, r - (preceding
                 - (DAYS_IN_MONTH (k - 1) + (if k - 1 = 2 \<and> leap then 1 else 0))) + 1)
         else (k, r - preceding + 1))"
    unfolding month_day_of_def k_def Let_def by simp
  from k(1,2) show ?thesis
  proof (cases rule: month_cases)
    case 1 then show ?thesis using k(3,4) assms
      unfolding e by (simp add: DAYS_BEFORE_MONTH_def DAYS_IN_MONTH_def Let_def)
  next
    case 2 then show ?thesis using k(3,4) assms
      unfolding e by (simp add: DAYS_BEFORE_MONTH_def DAYS_IN_MONTH_def Let_def)
  next
    case 3 then show ?thesis using k(3,4) assms
      unfolding e by (simp add: DAYS_BEFORE_MONTH_def DAYS_IN_MONTH_def Let_def)
  next
    case 4 then show ?thesis using k(3,4) assms
      unfolding e by (simp add: DAYS_BEFORE_MONTH_def DAYS_IN_MONTH_def Let_def)
  next
    case 5 then show ?thesis using k(3,4) assms
      unfolding e by (simp add: DAYS_BEFORE_MONTH_def DAYS_IN_MONTH_def Let_def)
  next
    case 6 then show ?thesis using k(3,4) assms
      unfolding e by (simp add: DAYS_BEFORE_MONTH_def DAYS_IN_MONTH_def Let_def)
  next
    case 7 then show ?thesis using k(3,4) assms
      unfolding e by (simp add: DAYS_BEFORE_MONTH_def DAYS_IN_MONTH_def Let_def)
  next
    case 8 then show ?thesis using k(3,4) assms
      unfolding e by (simp add: DAYS_BEFORE_MONTH_def DAYS_IN_MONTH_def Let_def)
  next
    case 9 then show ?thesis using k(3,4) assms
      unfolding e by (simp add: DAYS_BEFORE_MONTH_def DAYS_IN_MONTH_def Let_def)
  next
    case 10 then show ?thesis using k(3,4) assms
      unfolding e by (simp add: DAYS_BEFORE_MONTH_def DAYS_IN_MONTH_def Let_def)
  next
    case 11 then show ?thesis using k(3,4) assms
      unfolding e by (simp add: DAYS_BEFORE_MONTH_def DAYS_IN_MONTH_def Let_def)
  next
    case 12 then show ?thesis using k(3,4) assms
      unfolding e by (simp add: DAYS_BEFORE_MONTH_def DAYS_IN_MONTH_def Let_def)
  qed
qed

lemma ord2ymd_month_day:
  "1 \<le> fst (snd (ord2ymd n)) \<and> fst (snd (ord2ymd n)) \<le> 12
   \<and> 1 \<le> snd (snd (ord2ymd n))
   \<and> snd (snd (ord2ymd n))
        \<le> DAYS_IN_MONTH (fst (snd (ord2ymd n))) + (if fst (snd (ord2ymd n)) = 2 then 1 else 0)"
proof -
  define n100 where "n100 = ((n - 1) mod 146097) div 36524"
  define r4 where "r4 = (((n - 1) mod 146097) mod 36524) mod 1461"
  define n4 where "n4 = (((n - 1) mod 146097) mod 36524) div 1461"
  define leap where "leap \<longleftrightarrow> r4 div 365 = 3 \<and> (n4 \<noteq> 24 \<or> n100 = 3)"
  have r: "0 \<le> r4 mod 365" "r4 mod 365 \<le> 364" by simp_all
  have e: "snd (ord2ymd n) =
      (if r4 div 365 = 4 \<or> n100 = 4 then (12, 31) else month_day_of leap (r4 mod 365))"
    unfolding ord2ymd_def Let_def n100_def r4_def n4_def leap_def by simp
  show ?thesis
  proof (cases "r4 div 365 = 4 \<or> n100 = 4")
    case True
    then show ?thesis unfolding e by (simp add: DAYS_IN_MONTH_def)
  next
    case False
    have "(if fst (month_day_of leap (r4 mod 365)) = 2 \<and> leap then 1 else 0)
        \<le> (if fst (month_day_of leap (r4 mod 365)) = 2 then 1 else (0::int))" by simp
    then show ?thesis
      unfolding e using False month_day_of_range[OF r, of leap] by simp
  qed
qed

lemma month_range: "1 \<le> month t" "month t \<le> 12"
  unfolding month_def using ord2ymd_month_day[of "toordinal t"] by simp_all

lemma day_range:
  "1 \<le> day t" "day t \<le> DAYS_IN_MONTH (month t) + (if month t = 2 then 1 else 0)"
  unfolding month_def day_def using ord2ymd_month_day[of "toordinal t"] by simp_all

lemma not_leap_2025: "\<not> is_leap 2025"
  by (simp add: is_leap_def)

lemma days_before_year_2025: "days_before_year 2025 = 739251"
  by (simp add: days_before_year_def)

lemma ymd2ord_2025: "ymd2ord 2025 m d = 739251 + DAYS_BEFORE_MONTH m + d"
  by (simp add: ymd2ord_def days_before_year_2025 days_before_month_def not_leap_2025)

lemma days_before_month_bounds:
  assumes "1 \<le> m" "m \<le> 12"
  shows "0 \<le> DAYS_BEFORE_MONTH m \<and> DAYS_BEFORE_MONTH m + DAYS_IN_MONTH m \<le> 365"
  using assms
  by (cases rule: month_cases) (simp_all add: DAYS_BEFORE_MONTH_def DAYS_IN_MONTH_def)

lemma ymd2ord_2025_range:
  assumes "1 \<le> m" "m \<le> 12" "1 \<le> d" "d \<le> DAYS_IN_MONTH m"
  shows "739252 \<le> ymd2ord 2025 m d" "ymd2ord 2025 m d \<le> 739616"
  using days_before_month_bounds[OF assms(1,2)] assms(3,4) unfolding ymd2ord_2025 by simp_all

lemma div32_bounds:
  fixes x :: int
  shows "32 * (x div 32) \<le> x" "x < 32 * (x div 32) + 32"
proof -
  have "x = 32 * (x div 32) + x mod 32" by simp
  moreover have "0 \<le> x mod 32" "x mod 32 < 32" by simp_all
  ultimately show "32 * (x div 32) \<le> x" "x < 32 * (x div 32) + 32" by linarith+
qed

lemma month_day_of_inverse:
  assumes "1 \<le> m" "m \<le> 12" "1 \<le> d" "d \<le> DAYS_IN_MONTH m"
  shows "month_day_of False (DAYS_BEFORE_MONTH m + d - 1) = (m, d)"
proof -
  define r where "r = DAYS_BEFORE_MONTH m + d - 1"
  define k where "k = (r + 50) div 32"
  have k: "32 * k \<le> r + 50" "r + 50 < 32 * k + 32"
    unfolding k_def by (rule div32_bounds)+
  have e: "month_day_of False r =
      (if DAYS_BEFORE_MONTH k > r
       then (k - 1, r - (DAYS_BEFORE_MONTH k - DAYS_IN_MONTH (k - 1)) + 1)
       else (k, r - DAYS_BEFORE_MONTH k + 1))"
    unfolding month_day_of_def k_def Let_def by simp
  have "month_day_of False r = (m, d)"
    using assms(1,2)
  proof (cases rule: month_cases)
    case 1
    then have "k = 1 \<or> k = 2" using k assms(3,4) by (simp add: r_def DAYS_BEFORE_MONTH_def DAYS_IN_MONTH_def; arith)
    then show ?thesis unfolding e using 1 assms(3,4)
      by (auto simp: r_def DAYS_BEFORE_MONTH_def DAYS_IN_MONTH_def)
  next
    case 2
    then have "k = 2 \<or> k = 3" using k assms(3,4) by (simp add: r_def DAYS_BEFORE_MONTH_def DAYS_IN_MONTH_def; arith)
    then show ?thesis unfolding e using 2 assms(3,4)
      by (auto simp: r_def DAYS_BEFORE_MONTH_def DAYS_IN_MONTH_def)
  next
    case 3
    then have "k = 3 \<or> k = 4" using k assms(3,4) by (simp add: r_def DAYS_BEFORE_MONTH_def DAYS_IN_MONTH_def; arith)
    then show ?thesis unfolding e using 3 assms(3,4)
      by (auto simp: r_def DAYS_BEFORE_MONTH_def DAYS_IN_MONTH_def)
  next
    case 4
    then have "k = 4 \<or> k = 5" using k assms(3,4) by (simp add: r_def DAYS_BEFORE_MONTH_def DAYS_IN_MONTH_def; arith)
    then show ?thesis unfolding e using 4 assms(3,4)
      by (auto simp: r_def DAYS_BEFORE_MONTH_def DAYS_IN_MONTH_def)
  next
    case 5
    then have "k = 5 \<or> k = 6" using k assms(3,4) by (simp add: r_def DAYS_BEFORE_MONTH_def DAYS_IN_MONTH_def; arith)
    then show ?thesis unfolding e using 5 assms(3,4)
      by (auto simp: r_def DAYS_BEFORE_MONTH_def DAYS_IN_MONTH_def)
  next
    case 6
    then have "k = 6 \<or> k = 7" using k assms(3,4) by (simp add: r_def DAYS_BEFORE_MONTH_def DAYS_IN_MONTH_def; arith)
    then show ?thesis unfolding e using 6 assms(3,4)
      by (auto simp: r_def DAYS_BEFORE_MONTH_def DAYS_IN_MONTH_def)
  next
    case 7
    then have "k = 7 \<or> k = 8" using k assms(3,4) by (simp add: r_def DAYS_BEFORE_MONTH_def DAYS_IN_MONTH_def; arith)
    then show ?thesis unfolding e using 7 assms(3,4)
      by (auto simp: r_def DAYS_BEFORE_MONTH_def DAYS_IN_MONTH_def)
  next
    case 8
    then have "k = 8 \<or> k = 9" using k assms(3,4) by (simp add: r_def DAYS_BEFORE_MONTH_def DAYS_IN_MONTH_def; arith)
    then show ?thesis unfolding e using 8 assms(3,4)
      by (auto simp: r_def DAYS_BEFORE_MONTH_def DAYS_IN_MONTH_def)
  next
    case 9
    then have "k = 9 \<or> k = 10" using k assms(3,4) by (simp add: r_def DAYS_BEFORE_MONTH_def DAYS_IN_MONTH_def; arith)
    then show ?thesis unfolding e using 9 assms(3,4)
      by (auto simp: r_def DAYS_BEFORE_MONTH_def DAYS_IN_MONTH_def)
  next
    case 10
    then have "k = 10 \<or> k = 11" using k assms(3,4) by (simp add: r_def DAYS_BEFORE_MONTH_def DAYS_IN_MONTH_def; arith)
    then show ?thesis unfolding e using 10 assms(3,4)
      by (auto simp: r_def DAYS_BEFORE_MONTH_def DAYS_IN_MONTH_def)
  next
    case 11
    then have "k = 11 \<or> k = 12" using k assms(3,4) by (simp add: r_def DAYS_BEFORE_MONTH_def DAYS_IN_MONTH_def; arith)
    then show ?thesis unfolding e using 11 assms(3,4)
      by (auto simp: r_def DAYS_BEFORE_MONTH_def DAYS_IN_MONTH_def)
  next
    case 12
    then have "k = 12" using k assms(3,4) by (simp add: r_def DAYS_BEFORE_MONTH_def DAYS_IN_MONTH_def; arith)
    then show ?thesis unfolding e using 12 assms(3,4)
      by (auto simp: r_def DAYS_BEFORE_MONTH_def DAYS_IN_MONTH_def)
  qed
  then show ?thesis unfolding r_def .
qed

lemma ord2ymd_2025:
  assumes "1 \<le> m" "m \<le> 12" "1 \<le> d" "d \<le> DAYS_IN_MONTH m"
  shows "ord2ymd (ymd2ord 2025 m d) = (2025, m, d)"
proof -
  define r where "r = DAYS_BEFORE_MONTH m + d - 1"
  have r: "0 \<le> r" "r \<le> 364"
    unfolding r_def using days_before_month_bounds[OF assms(1,2)] assms(3,4) by simp_all
  have n: "ymd2ord 2025 m d - 1 = r + 739251" unfolding ymd2ord_2025 r_def by simp
  have a: "(r + 739251) div 146097 = 5" "(r + 739251) mod 146097 = r + 8766"
    using r by (auto intro: int_div_pos_eq int_mod_pos_eq)
  have b: "(r + 8766) div 36524 = 0" "(r + 8766) mod 36524 = r + 8766"
    using r by simp_all
  have c: "(r + 8766) div 1461 = 6" "(r + 8766) mod 1461 = r"
    using r by (auto intro: int_div_pos_eq int_mod_pos_eq)
  have d: "r div 365 = 0" "r mod 365 = r" using r by simp_all
  have "ord2ymd (ymd2ord 2025 m d) = (2025, fst (month_day_of False r), snd (month_day_of False r))"
    unfolding ord2ymd_def Let_def n a b c d by simp
  then show ?thesis
    using month_day_of_inverse[OF assms] unfolding r_def by simp
qed

lemma year_ge_2025:
  assumes "739252 \<le> n"
  shows "2025 \<le> fst (ord2ymd n)"
proof -
  define n400 where "n400 = (n - 1) div 146097"
  define r400 where "r400 = (n - 1) mod 146097"
  define n100 where "n100 = r400 div 36524"
  define r100 where "r100 = r400 mod 36524"
  define n4 where "n4 = r100 div 1461"
  define r4 where "r4 = r100 mod 1461"
  define n1 where "n1 = r4 div 365"
  define y where "y = n400 * 400 + 1 + n100 * 100 + n4 * 4 + n1"
  have e: "fst (ord2ymd n) = (if n1 = 4 \<or> n100 = 4 then y - 1 else y)"
    unfolding ord2ymd_def Let_def y_def n1_def r4_def n4_def r100_def n100_def r400_def n400_def
    by simp
  have "(5 * 146097) div 146097 \<le> (n - 1) div (146097::int)"
    using assms by (intro zdiv_mono1) simp_all
  then have n400: "5 \<le> n400" unfolding n400_def by simp
  have rr: "0 \<le> r400" "0 \<le> r100" "0 \<le> r4"
    unfolding r400_def r100_def r4_def by simp_all
  have nn: "0 \<le> n100" "0 \<le> n4" "0 \<le> n1"
    unfolding n100_def n4_def n1_def using rr by (simp_all add: pos_imp_zdiv_nonneg_iff)
  have split: "n - 1 = n400 * 146097 + r400" "r400 = n100 * 36524 + r100"
    unfolding n400_def r400_def n100_def r100_def by simp_all
  show ?thesis
  proof (cases "n400 = 5 \<and> n100 = 0")
    case True
    then have "8766 \<le> r100" using split assms by simp
    then have "8766 div 1461 \<le> r100 div (1461::int)" by (intro zdiv_mono1) simp_all
    then have "6 \<le> n4" unfolding n4_def by simp
    then show ?thesis unfolding e y_def using True nn by auto
  next
    case False
    then have "n400 \<ge> 6 \<or> n100 \<ge> 1" using n400 nn(1) by arith
    then show ?thesis unfolding e y_def using n400 nn by auto
  qed
qed

lemma year_2025_ordinal:
  "year t < 2025 \<Longrightarrow> toordinal t < 739252"
  using year_ge_2025[of "toordinal t"] unfolding year_def by linarith

lemma new_datetime_Inr:
  assumes "new_datetime y m d hh mm ss us = Inr t"
  shows "t = \<lparr>toordinal = ymd2ord y m d, hour = hh, minute = mm, second = ss, microsecond = us\<rparr>"
    and "1 \<le> y" "y \<le> 9999" "1 \<le> m" "m \<le> 12" "1 \<le> d" "d \<le> days_in_month y m"
    and "0 \<le> hh" "hh \<le> 23" "0 \<le> mm" "mm \<le> 59" "0 \<le> ss" "ss \<le> 59"
    and "0 \<le> us" "us \<le> 999999"
  using assms unfolding new_datetime_def by (simp_all split: if_splits)

lemma days_in_month_2025 [simp]: "days_in_month 2025 m = DAYS_IN_MONTH m"
  by (simp add: days_in_month_def not_leap_2025)

lemma new_datetime_2025_fields:
  assumes "new_datetime 2025 m d hh mm ss us = Inr t"
  shows "valid_datetime t" "year t = 2025" "month t = m" "day t = d"
    "hour t = hh" "minute t = mm" "second t = ss" "microsecond t = us"
    "739252 \<le> toordinal t" "toordinal t \<le> 739616"
proof -
  note f = new_datetime_Inr[OF assms]
  have md: "1 \<le> m" "m \<le> 12" "1 \<le> d" "d \<le> DAYS_IN_MONTH m" using f(4-7) by simp_all
  have o: "toordinal t = ymd2ord 2025 m d" using f(1) by simp
  show "739252 \<le> toordinal t" "toordinal t \<le> 739616"
    unfolding o using ymd2ord_2025_range[OF md] by simp_all
  then show "valid_datetime t"
    unfolding valid_datetime_def MAXORDINAL_def using f by simp
  show "year t = 2025" "month t = m" "day t = d"
    unfolding year_def month_def day_def o ord2ymd_2025[OF md] by simp_all
  show "hour t = hh" "minute t = mm" "second t = ss" "microsecond t = us"
    using f(1) by simp_all
qed

lemma new_datetime_2025_ok:
  assumes "1 \<le> m" "m \<le> 12" "1 \<le> d" "d \<le> DAYS_IN_MONTH m + (if m = 2 then 1 else 0)"
    and "0 \<le> hh" "hh < 24" "0 \<le> mm" "mm < 60" "0 \<le> ss" "ss < 60"
    and "0 \<le> us" "us < 1000000"
  shows "new_datetime 2025 m d hh mm ss us =
     (if m = 2 \<and> d = 29 then Inl ValueError
      else Inr \<lparr>toordinal = ymd2ord 2025 m d, hour = hh, minute = mm, second = ss,
                microsecond = us\<rparr>)"
proof (cases "m = 2")
  case True
  then show ?thesis
    using assms unfolding new_datetime_def by (auto simp: DAYS_IN_MONTH_def)
next
  case False
  then show ?thesis
    using assms unfolding new_datetime_def by auto
qed

subsection \<open>The future clamp\<close>

lemma get_now_ist_eq:
  "get_now_ist env w =
     (datetime_add (utcnow_tape env (clock_reads w)) (timedelta_of 0 5 30),
      w\<lparr>clock_reads := clock_reads w + 1\<rparr>)"
  by (simp add: get_now_ist_def)

lemma replace_year_2025:
  assumes "valid_datetime t"
  shows "replace_year t 2025 =
     (if month t = 2 \<and> day t = 29 then Inl ValueError
      else Inr \<lparr>toordinal = ymd2ord 2025 (month t) (day t), hour = hour t, minute = minute t,
                second = second t, microsecond = microsecond t\<rparr>)"
  unfolding replace_year_def
  using assms month_range[of t] day_range[of t]
  by (intro new_datetime_2025_ok) (simp_all add: valid_datetime_def)

lemma virtual_2025_eq:
  assumes "valid_datetime now_ist"
  shows "virtual_2025 now_ist =
     (if month now_ist = 2 \<and> day now_ist = 29 then Inl ValueError
      else Inr \<lparr>toordinal = ymd2ord 2025 (month now_ist) (day now_ist), hour = hour now_ist,
                minute = minute now_ist, second = second now_ist,
                microsecond = microsecond now_ist\<rparr>)"
  using replace_year_2025[OF assms] unfolding replace_year_def virtual_2025_def .

lemma clamp_to_future_2025_eq:
  assumes "get_now_ist env w = (Inr now_ist, w1)"
  shows "clamp_to_future_2025 env ist_dt w =
     (case (if year ist_dt < 2025 then replace_year ist_dt 2025 else Inr ist_dt) of
        Inl e \<Rightarrow> (Inl e, w1)
      | Inr ist_dt1 \<Rightarrow>
     (case virtual_2025 now_ist of
        Inl e \<Rightarrow> (Inl e, w1)
      | Inr floor \<Rightarrow> (Inr (if datetime_less ist_dt1 floor then floor else ist_dt1), w1)))"
  unfolding clamp_to_future_2025_def virtual_2025_def using assms by simp

lemma get_now_ist_valid:
  assumes "get_now_ist env w = (Inr now_ist, w1)"
  shows "valid_datetime now_ist" "w1 = w\<lparr>clock_reads := clock_reads w + 1\<rparr>"
    "datetime_add (utcnow_tape env (clock_reads w)) (timedelta_of 0 5 30) = Inr now_ist"
  using assms datetime_add_valid[of "utcnow_tape env (clock_reads w)" "timedelta_of 0 5 30" now_ist]
  unfolding get_now_ist_eq by auto

subsection \<open>The free/busy oracle\<close>

lemma get_busy_slots_world:
  assumes "get_busy_slots env email s e w = (r, w1)"
  shows "clock_reads w1 = clock_reads w" "queries w \<le> queries w1" "queries w1 \<le> queries w + 1"
  using assms unfolding get_busy_slots_def Let_def
  by (auto split: sum.splits option.splits)

lemma is_slot_free_for_both_world:
  assumes "is_slot_free_for_both env a b s e w = (r, w2)"
  shows "clock_reads w2 = clock_reads w" "queries w \<le> queries w2" "queries w2 \<le> queries w + 2"
proof -
  obtain r1 w1 where g1: "get_busy_slots env a s e w = (r1, w1)" by (cases "get_busy_slots env a s e w")
  obtain r2 w2' where g2: "get_busy_slots env b s e w1 = (r2, w2')" by (cases "get_busy_slots env b s e w1")
  have "w2 = w1 \<or> w2 = w2'"
    using assms g1 g2 unfolding is_slot_free_for_both_def by (auto split: sum.splits)
  then show "clock_reads w2 = clock_reads w" "queries w \<le> queries w2" "queries w2 \<le> queries w + 2"
    using get_busy_slots_world[OF g1] get_busy_slots_world[OF g2] by auto
qed

subsection \<open>The seed-time loop\<close>

lemma find_first_free_slot_loop_unfold:
  "find_first_free_slot_loop env current attempts w =
     (if attempts < max_attempts then
        (case seed_iteration env current w of
           (Raised e, w1) \<Rightarrow> (Inl e, attempts, w1)
         | (Found s, w1) \<Rightarrow> (Inr (Some s), attempts, w1)
         | (Advance c, w1) \<Rightarrow> find_first_free_slot_loop env c (attempts + 1) w1)
      else (Inr None, attempts, w))"
  by (subst find_first_free_slot_loop.simps)
     (simp add: seed_iteration_def split: prod.splits sum.splits)

lemma clamp_to_future_2025_world:
  assumes "clamp_to_future_2025 env t w = (r, w1)"
  shows "w1 = w\<lparr>clock_reads := clock_reads w + 1\<rparr>"
  using assms unfolding clamp_to_future_2025_def get_now_ist_eq
  by (auto split: sum.splits)

lemma seed_iteration_world:
  assumes "seed_iteration env current w = (out, w2)"
  shows "clock_reads w2 = clock_reads w + 1" "queries w \<le> queries w2" "queries w2 \<le> queries w + 2"
proof -
  obtain r1 w1 where c: "clamp_to_future_2025 env current w = (r1, w1)"
    by (cases "clamp_to_future_2025 env current w")
  have w1: "w1 = w\<lparr>clock_reads := clock_reads w + 1\<rparr>" by (rule clamp_to_future_2025_world[OF c])
  have "w2 = w1 \<or> (\<exists>c2 e r. is_slot_free_for_both env RECRUITER_EMAIL CANDIDATE_EMAIL c2 e w1 = (r, w2))"
    using assms c unfolding seed_iteration_def
    by (auto split: sum.splits prod.splits if_splits)
  then show "clock_reads w2 = clock_reads w + 1" "queries w \<le> queries w2" "queries w2 \<le> queries w + 2"
    using w1 is_slot_free_for_both_world[where w = w1 and ?w2.0 = w2] by auto
qed

lemma clamp_to_future_2025_result:
  assumes "valid_datetime t" and "get_now_ist env w = (Inr now_ist, w1)"
    and "clamp_to_future_2025 env t w = (Inr r, w')"
  shows "\<exists>floor t1.
           virtual_2025 now_ist = Inr floor
         \<and> year floor = 2025 \<and> month floor = month now_ist \<and> day floor = day now_ist
         \<and> hour floor = hour now_ist \<and> minute floor = minute now_ist
         \<and> second floor = second now_ist \<and> microsecond floor = microsecond now_ist
         \<and> (if year t < 2025
             then replace_year t 2025 = Inr t1 \<and> year t1 = 2025 \<and> month t1 = month t
                  \<and> day t1 = day t \<and> hour t1 = hour t \<and> minute t1 = minute t
                  \<and> second t1 = second t \<and> microsecond t1 = microsecond t
             else t1 = t)
         \<and> r = (if datetime_less t1 floor then floor else t1)
         \<and> datetime_le floor r \<and> valid_datetime r"
proof -
  from assms(3) obtain t1 floor where
    t1: "(if year t < 2025 then replace_year t 2025 else Inr t) = Inr t1"
    and fl: "virtual_2025 now_ist = Inr floor"
    and r: "r = (if datetime_less t1 floor then floor else t1)"
    unfolding clamp_to_future_2025_eq[OF assms(2)] by (auto split: sum.splits)
  note ff = new_datetime_2025_fields[OF fl[unfolded virtual_2025_def]]
  have le: "datetime_le floor r" unfolding r by (simp add: datetime_less_le)
  have t1': "if year t < 2025
             then replace_year t 2025 = Inr t1 \<and> year t1 = 2025 \<and> month t1 = month t
                  \<and> day t1 = day t \<and> hour t1 = hour t \<and> minute t1 = minute t
                  \<and> second t1 = second t \<and> microsecond t1 = microsecond t
             else t1 = t"
  proof (cases "year t < 2025")
    case True
    then have e: "replace_year t 2025 = Inr t1" using t1 by simp
    show ?thesis
      using True e new_datetime_2025_fields[OF e[unfolded replace_year_def]] by simp
  next
    case False
    then show ?thesis using t1 by simp
  qed
  have "valid_datetime t1"
  proof (cases "year t < 2025")
    case True
    then have e: "replace_year t 2025 = Inr t1" using t1 by simp
    show ?thesis by (rule new_datetime_2025_fields(1)[OF e[unfolded replace_year_def]])
  next
    case False
    then show ?thesis using t1 assms(1) by simp
  qed
  then have vr: "valid_datetime r" unfolding r using ff(1) by simp
  show ?thesis
    using fl ff(2-8) t1' r le vr by blast
qed

lemma reanchored_now_eq:
  assumes "get_now_ist env w = (Inr now_ist, w1)"
  shows "reanchored_now env (clock_reads w) = virtual_2025 now_ist"
  using get_now_ist_valid(3)[OF assms] unfolding reanchored_now_def by simp

lemma clamp_to_future_2025_floor:
  assumes "valid_datetime t" and "clamp_to_future_2025 env t w = (Inr r, w1)"
  shows "\<exists>floor. reanchored_now env (clock_reads w) = Inr floor \<and> datetime_le floor r"
    and "valid_datetime r"
proof -
  obtain x w0 where g: "get_now_ist env w = (x, w0)" by (cases "get_now_ist env w")
  from assms(2) g obtain now_ist where x: "x = Inr now_ist"
    unfolding clamp_to_future_2025_def by (cases x) auto
  note g' = g[unfolded x]
  from clamp_to_future_2025_result[OF assms(1) g' assms(2)]
  obtain floor where "virtual_2025 now_ist = Inr floor" "datetime_le floor r" "valid_datetime r"
    by blast
  then show "\<exists>floor. reanchored_now env (clock_reads w) = Inr floor \<and> datetime_le floor r"
    and "valid_datetime r"
    using reanchored_now_eq[OF g'] by auto
qed

lemma seed_iteration_Found:
  assumes "valid_datetime current" and "seed_iteration env current w = (Found s, w2)"
  shows "weekday s < 5 \<and> 9 \<le> hour s \<and> hour s < 19 \<and> valid_datetime s
       \<and> (\<exists>floor. reanchored_now env (clock_reads w) = Inr floor \<and> datetime_le floor s)"
proof -
  from assms(2) obtain c1 w1 where c1: "clamp_to_future_2025 env current w = (Inr c1, w1)"
    and c2: "clamp_to_working_hours c1 = Inr s"
    unfolding seed_iteration_def by (auto split: sum.splits prod.splits if_splits)
  from clamp_to_future_2025_floor[OF assms(1) c1]
  obtain floor where f: "reanchored_now env (clock_reads w) = Inr floor" "datetime_le floor c1"
    and v1: "valid_datetime c1" by blast
  have "datetime_le c1 s" "valid_datetime s"
    using clamp_to_working_hours_le[OF v1 c2] by simp_all
  then show ?thesis
    using clamp_to_working_hours_range[OF c2] f datetime_le_trans by blast
qed

lemma seed_iteration_Advance:
  assumes "seed_iteration env current w = (Advance c, w2)"
  shows "valid_datetime c"
proof -
  from assms obtain c2 where "datetime_add c2 (timedelta_of 0 1 0) = Inr c"
    unfolding seed_iteration_def by (auto split: sum.splits prod.splits if_splits)
  then show ?thesis by (rule datetime_add_valid)
qed

lemma find_first_free_slot_loop_count:
  assumes "find_first_free_slot_loop env current a w = (r, n, w')" and "a \<le> max_attempts"
  shows "a \<le> n \<and> n \<le> max_attempts \<and> (r = Inr None \<longleftrightarrow> n = max_attempts)
       \<and> clock_reads w' = clock_reads w + (n - a) + (if r = Inr None then 0 else 1)
       \<and> queries w \<le> queries w'
       \<and> queries w' \<le> queries w + 2 * (n - a) + (if r = Inr None then 0 else 2)"
  using assms
proof (induction "max_attempts - a" arbitrary: a current w)
  case 0
  then have "\<not> a < max_attempts" by simp
  then have "find_first_free_slot_loop env current a w = (Inr None, a, w)"
    by (subst find_first_free_slot_loop_unfold) simp
  then show ?case using "0.prems" "0.hyps" by auto
next
  case (Suc k)
  then have lt: "a < max_attempts" by simp
  obtain out w1 where it: "seed_iteration env current w = (out, w1)"
    by (cases "seed_iteration env current w")
  note ww = seed_iteration_world[OF it]
  show ?case
  proof (cases out)
    case (Raised e)
    then have "(r, n, w') = (Inl e, a, w1)"
      using Suc.prems(1) lt it by (subst (asm) find_first_free_slot_loop_unfold) simp
    then show ?thesis using ww lt by auto
  next
    case (Found s)
    then have "(r, n, w') = (Inr (Some s), a, w1)"
      using Suc.prems(1) lt it by (subst (asm) find_first_free_slot_loop_unfold) simp
    then show ?thesis using ww lt by auto
  next
    case (Advance c)
    then have rec: "find_first_free_slot_loop env c (a + 1) w1 = (r, n, w')"
      using Suc.prems(1) lt it by (subst (asm) find_first_free_slot_loop_unfold) simp
    have k: "k = max_attempts - (a + 1)" using Suc.hyps(2) by simp
    have le: "a + 1 \<le> max_attempts" using lt by simp
    from Suc.hyps(1)[OF k rec le] show ?thesis using ww by auto
  qed
qed

lemma find_first_free_slot_loop_Found:
  assumes "find_first_free_slot_loop env current a w = (Inr (Some s), n, w')"
    and "valid_datetime current"
  shows "weekday s < 5 \<and> 9 \<le> hour s \<and> hour s < 19 \<and> valid_datetime s
       \<and> (\<exists>floor. reanchored_now env (clock_reads w' - 1) = Inr floor \<and> datetime_le floor s)"
  using assms
proof (induction "max_attempts - a" arbitrary: a current w)
  case 0
  then have "\<not> a < max_attempts" by simp
  then have "find_first_free_slot_loop env current a w = (Inr None, a, w)"
    by (subst find_first_free_slot_loop_unfold) simp
  then show ?case using "0.prems" by simp
next
  case (Suc k)
  then have lt: "a < max_attempts" by simp
  obtain out w1 where it: "seed_iteration env current w = (out, w1)"
    by (cases "seed_iteration env current w")
  note ww = seed_iteration_world[OF it]
  show ?case
  proof (cases out)
    case (Raised e)
    then have "(Inr (Some s), n, w') = (Inl e, a, w1)"
      using Suc.prems(1) lt it by (subst (asm) find_first_free_slot_loop_unfold) simp
    then show ?thesis by simp
  next
    case (Found s')
    then have "(Inr (Some s), n, w') = (Inr (Some s'), a, w1)"
      using Suc.prems(1) lt it by (subst (asm) find_first_free_slot_loop_unfold) simp
    then have e: "s' = s" "w1 = w'" by simp_all
    show ?thesis
      using seed_iteration_Found[OF Suc.prems(2) it[unfolded Found e]] ww(1)[unfolded e] by simp
  next
    case (Advance c)
    then have rec: "find_first_free_slot_loop env c (a + 1) w1 = (Inr (Some s), n, w')"
      using Suc.prems(1) lt it by (subst (asm) find_first_free_slot_loop_unfold) simp
    have k: "k = max_attempts - (a + 1)" using Suc.hyps(2) by simp
    show ?thesis
      by (rule Suc.hyps(1)[OF k rec seed_iteration_Advance[OF it[unfolded Advance]]])
  qed
qed

lemma to_utc_ok:
  assumes "valid_datetime t" "2 \<le> toordinal t"
  shows "\<exists>u. to_utc t = Inr u"
proof -
  define s where "s = hour t * 3600 + minute t * 60 + second t + 66600"
  have n: "timedelta_neg (timedelta_of 0 5 30) = \<lparr>days = -1, seconds = 66600, microseconds = 0\<rparr>"
    by (simp add: timedelta_neg_def timedelta_of_simps)
  have "0 \<le> s" "s \<le> 172799"
    unfolding s_def using assms(1) by (auto simp: valid_datetime_def)
  then have "0 \<le> s div 86400" "s div 86400 \<le> 172799 div 86400"
    by (simp add: pos_imp_zdiv_nonneg_iff, intro zdiv_mono1) simp_all
  then have d: "0 < toordinal t + (-1) + s div 86400"
    "toordinal t + (-1) + s div 86400 \<le> MAXORDINAL"
    using assms by (simp_all add: valid_datetime_def)
  show ?thesis
    unfolding to_utc_def datetime_sub_def n
    using datetime_add_valid_unfold[OF assms(1), of "\<lparr>days = -1, seconds = 66600, microseconds = 0\<rparr>"
        s "toordinal t + (-1) + s div 86400"] d
    by (simp add: s_def)
qed

lemma get_busy_slots_answer:
  assumes "to_utc s = Inr us" "to_utc e = Inr ue"
    and "freebusy_tape env (queries w) \<lparr>timeMin = us, timeMax = ue, timeZone = ''UTC'',
            items = [email]\<rparr> = Inr response"
    and "busy_of response email = Some busy"
  shows "get_busy_slots env email s e w = (Inr busy, w\<lparr>queries := queries w + 1\<rparr>)"
  using assms unfolding get_busy_slots_def busy_of_def Let_def
  by (auto split: option.splits)

lemma get_busy_slots_free:
  assumes "reports_free env" "to_utc s = Inr us" "to_utc e = Inr ue"
  shows "get_busy_slots env email s e w = (Inr [], w\<lparr>queries := queries w + 1\<rparr>)"
proof -
  from assms(1) obtain response where
    "freebusy_tape env (queries w) \<lparr>timeMin = us, timeMax = ue, timeZone = ''UTC'',
        items = [email]\<rparr> = Inr response"
    "busy_of response email = Some []"
    unfolding reports_free_def by fastforce
  then show ?thesis by (rule get_busy_slots_answer[OF assms(2,3)])
qed

lemma get_busy_slots_busy:
  assumes "reports_busy env" "to_utc s = Inr us" "to_utc e = Inr ue"
  shows "\<exists>b bs. get_busy_slots env email s e w = (Inr (b # bs), w\<lparr>queries := queries w + 1\<rparr>)"
proof -
  from assms(1) obtain response b bs where
    "freebusy_tape env (queries w) \<lparr>timeMin = us, timeMax = ue, timeZone = ''UTC'',
        items = [email]\<rparr> = Inr response"
    "busy_of response email = Some (b # bs)"
    unfolding reports_busy_def by fastforce
  then show ?thesis using get_busy_slots_answer[OF assms(2,3)] by blast
qed

lemma is_slot_free_for_both_free:
  assumes "reports_free env" "to_utc s = Inr us" "to_utc e = Inr ue"
  shows "is_slot_free_for_both env a b s e w = (Inr True, w\<lparr>queries := queries w + 2\<rparr>)"
  unfolding is_slot_free_for_both_def
  by (simp add: get_busy_slots_free[OF assms])

lemma is_slot_free_for_both_busy:
  assumes "reports_busy env" "to_utc s = Inr us" "to_utc e = Inr ue"
  shows "is_slot_free_for_both env a b s e w = (Inr False, w\<lparr>queries := queries w + 2\<rparr>)"
proof -
  obtain x xs where 1: "get_busy_slots env a s e w = (Inr (x # xs), w\<lparr>queries := queries w + 1\<rparr>)"
    using get_busy_slots_busy[OF assms] by blast
  have 2: "\<exists>y ys. get_busy_slots env b s e w1 = (Inr (y # ys), w1\<lparr>queries := queries w1 + 1\<rparr>)"
    for w1 by (rule get_busy_slots_busy[OF assms])
  show ?thesis
    using 1 2[of "w\<lparr>queries := queries w + 1\<rparr>"]
    by (auto simp: is_slot_free_for_both_def)
qed

lemma business_hour_slot:
  assumes "valid_datetime c" "hour c < 19" "2 \<le> toordinal c"
  shows "datetime_add c (timedelta_of 0 1 0) = Inr (c\<lparr>hour := hour c + 1\<rparr>)"
    and "\<exists>u. to_utc c = Inr u" and "\<exists>u. to_utc (c\<lparr>hour := hour c + 1\<rparr>) = Inr u"
proof -
  show a: "datetime_add c (timedelta_of 0 1 0) = Inr (c\<lparr>hour := hour c + 1\<rparr>)"
    using datetime_add_hour[OF assms(1)] assms(2) by simp
  show "\<exists>u. to_utc c = Inr u" by (rule to_utc_ok[OF assms(1,3)])
  have "valid_datetime (c\<lparr>hour := hour c + 1\<rparr>)" using a datetime_add_valid by metis
  then show "\<exists>u. to_utc (c\<lparr>hour := hour c + 1\<rparr>) = Inr u"
    using assms(3) by (intro to_utc_ok) simp_all
qed

lemma seed_iteration_free:
  assumes "reports_free env" and "clamp_to_future_2025 env current w = (Inr c1, w1)"
    and "clamp_to_working_hours c1 = Inr c2" and "valid_datetime c1" and "2 \<le> toordinal c1"
  shows "seed_iteration env current w = (Found c2, w1\<lparr>queries := queries w1 + 2\<rparr>)"
proof -
  have v2: "valid_datetime c2" and le: "datetime_le c1 c2"
    using clamp_to_working_hours_le[OF assms(4,3)] by simp_all
  have h: "hour c2 < 19" using clamp_to_working_hours_range[OF assms(3)] by simp
  have o: "2 \<le> toordinal c2" using datetime_le_toordinal[OF le] assms(5) by simp
  note b = business_hour_slot[OF v2 h o]
  from b(2,3) obtain us ue where u: "to_utc c2 = Inr us" "to_utc (c2\<lparr>hour := hour c2 + 1\<rparr>) = Inr ue"
    by blast
  show ?thesis
    unfolding seed_iteration_def
    by (simp add: assms(2,3) b(1) is_slot_free_for_both_free[OF assms(1) u])
qed

lemma seed_iteration_busy:
  assumes "reports_busy env" and "clamp_to_future_2025 env current w = (Inr c1, w1)"
    and "clamp_to_working_hours c1 = Inr c2" and "valid_datetime c1" and "2 \<le> toordinal c1"
  shows "seed_iteration env current w
       = (Advance (c2\<lparr>hour := hour c2 + 1\<rparr>), w1\<lparr>queries := queries w1 + 2\<rparr>)"
proof -
  have v2: "valid_datetime c2" and le: "datetime_le c1 c2"
    using clamp_to_working_hours_le[OF assms(4,3)] by simp_all
  have h: "hour c2 < 19" using clamp_to_working_hours_range[OF assms(3)] by simp
  have o: "2 \<le> toordinal c2" using datetime_le_toordinal[OF le] assms(5) by simp
  note b = business_hour_slot[OF v2 h o]
  from b(2,3) obtain us ue where u: "to_utc c2 = Inr us" "to_utc (c2\<lparr>hour := hour c2 + 1\<rparr>) = Inr ue"
    by blast
  show ?thesis
    unfolding seed_iteration_def
    by (simp add: assms(2,3) b(1) is_slot_free_for_both_busy[OF assms(1) u])
qed

lemma find_first_free_slot_Found:
  assumes "seed_iteration env current w = (Found s, w2)"
  shows "find_first_free_slot env current w = (Inr (Some s), w2)"
  unfolding find_first_free_slot_def
  by (subst find_first_free_slot_loop_unfold) (simp add: assms max_attempts_def)

lemma reports_free_always_free: "reports_free (always_free now_utc)"
  by (simp add: reports_free_def always_free_def free_response_def busy_of_def)

lemma reports_busy_always_busy: "reports_busy (always_busy now_utc)"
  by (simp add: reports_busy_def always_busy_def busy_response_def busy_of_def)

lemma find_first_free_slot_in_hours_free:
  assumes "valid_datetime seed" "weekday seed < 5" "9 \<le> hour seed" "hour seed < 19"
    and "reports_free env"
    and "reanchored_now env (clock_reads w) = Inr floor" "datetime_le floor seed"
  shows "find_first_free_slot env seed w
       = (Inr (Some seed), w\<lparr>clock_reads := clock_reads w + 1, queries := queries w + 2\<rparr>)"
proof -
  from assms(6) obtain now_ist where
    n: "datetime_add (utcnow_tape env (clock_reads w)) (timedelta_of 0 5 30) = Inr now_ist"
    and fl: "virtual_2025 now_ist = Inr floor"
    unfolding reanchored_now_def by (auto split: sum.splits)
  define w1 where "w1 = w\<lparr>clock_reads := clock_reads w + 1\<rparr>"
  have g: "get_now_ist env w = (Inr now_ist, w1)"
    unfolding get_now_ist_eq w1_def using n by simp
  have "739252 \<le> toordinal floor"
    by (rule new_datetime_2025_fields(9)[OF fl[unfolded virtual_2025_def]])
  then have o: "739252 \<le> toordinal seed"
    using datetime_le_toordinal[OF assms(7)] by simp
  then have y: "\<not> year seed < 2025"
    using year_ge_2025[of "toordinal seed"] unfolding year_def by simp
  have nl: "\<not> datetime_less seed floor" using assms(7) by (simp add: datetime_less_le)
  have c1: "clamp_to_future_2025 env seed w = (Inr seed, w1)"
    unfolding clamp_to_future_2025_eq[OF g] using y nl fl by simp
  have c2: "clamp_to_working_hours seed = Inr seed"
    by (rule clamp_to_working_hours_noop[OF assms(2,3,4)])
  have "2 \<le> toordinal seed" using o by simp
  from seed_iteration_free[OF assms(5) c1 c2 assms(1) this]
  have "find_first_free_slot env seed w = (Inr (Some seed), w1\<lparr>queries := queries w1 + 2\<rparr>)"
    by (rule find_first_free_slot_Found)
  then show ?thesis unfolding w1_def by simp
qed

subsection \<open>The clamps succeed away from the end of the calendar\<close>






subsection \<open>Exhausting the budget\<close>




subsection \<open>Errors of the oracle\<close>

lemma is_slot_free_for_both_raises:
  assumes "get_busy_slots env a s e w1 = (Inl err, w2)
         \<or> (\<exists>rb wm. get_busy_slots env a s e w1 = (Inr rb, wm)
                   \<and> get_busy_slots env b s e wm = (Inl err, w2))"
  shows "is_slot_free_for_both env a b s e w1 = (Inl err, w2)"
  using assms unfolding is_slot_free_for_both_def by auto

lemma is_slot_free_for_both_True:
  assumes "is_slot_free_for_both env a b s e w = (Inr True, w')"
  shows "\<exists>wm. get_busy_slots env a s e w = (Inr [], wm) \<and> get_busy_slots env b s e wm = (Inr [], w')"
  using assms unfolding is_slot_free_for_both_def
  by (auto split: sum.splits prod.splits)

lemma seed_iteration_Found_probe:
  assumes "seed_iteration env current w = (Found s, w2)"
  shows "\<exists>e w1. datetime_add s (timedelta_of 0 1 0) = Inr e
           \<and> is_slot_free_for_both env RECRUITER_EMAIL CANDIDATE_EMAIL s e w1 = (Inr True, w2)"
  using assms unfolding seed_iteration_def
  by (auto split: sum.splits prod.splits if_splits)

lemma find_first_free_slot_loop_Found_probe:
  assumes "find_first_free_slot_loop env current a w = (Inr (Some s), n, w')"
  shows "\<exists>e w1. datetime_add s (timedelta_of 0 1 0) = Inr e
           \<and> is_slot_free_for_both env RECRUITER_EMAIL CANDIDATE_EMAIL s e w1 = (Inr True, w')"
  using assms
proof (induction "max_attempts - a" arbitrary: a current w)
  case 0
  then have "\<not> a < max_attempts" by simp
  then have "find_first_free_slot_loop env current a w = (Inr None, a, w)"
    by (subst find_first_free_slot_loop_unfold) simp
  then show ?case using "0.prems" by simp
next
  case (Suc k)
  then have lt: "a < max_attempts" by simp
  obtain out w1 where it: "seed_iteration env current w = (out, w1)"
    by (cases "seed_iteration env current w")
  show ?case
  proof (cases out)
    case (Raised e)
    then have "(Inr (Some s), n, w') = (Inl e, a, w1)"
      using Suc.prems(1) lt it by (subst (asm) find_first_free_slot_loop_unfold) simp
    then show ?thesis by simp
  next
    case (Found s')
    then have "(Inr (Some s), n, w') = (Inr (Some s'), a, w1)"
      using Suc.prems(1) lt it by (subst (asm) find_first_free_slot_loop_unfold) simp
    then have e: "s' = s" "w1 = w'" by simp_all
    show ?thesis by (rule seed_iteration_Found_probe[OF it[unfolded Found e]])
  next
    case (Advance c)
    then have rec: "find_first_free_slot_loop env c (a + 1) w1 = (Inr (Some s), n, w')"
      using Suc.prems(1) lt it by (subst (asm) find_first_free_slot_loop_unfold) simp
    have k: "k = max_attempts - (a + 1)" using Suc.hyps(2) by simp
    show ?thesis by (rule Suc.hyps(1)[OF k rec])
  qed
qed

lemma find_first_free_slot_loop_raises:
  assumes "attempts < max_attempts"
    and "clamp_to_future_2025 env current w = (Inr c1, w1)"
    and "clamp_to_working_hours c1 = Inr s"
    and "datetime_add s (timedelta_of 0 1 0) = Inr e"
    and "is_slot_free_for_both env RECRUITER_EMAIL CANDIDATE_EMAIL s e w1 = (Inl err, w2)"
  shows "find_first_free_slot_loop env current attempts w = (Inl err, attempts, w2)"
  by (subst find_first_free_slot_loop.simps) (simp add: assms)

lemma find_1hr_slot_loop_raises:
  assumes "datetime_add s (timedelta_of 0 1 0) = Inr e" and "datetime_le e candidate_end"
    and "is_slot_free_for_both env RECRUITER_EMAIL CANDIDATE_EMAIL s e w1 = (Inl err, w2)"
  shows "find_1hr_slot_loop env s candidate_end w1 = (Inl err, w2)"
  by (subst find_1hr_slot_loop.simps) (simp add: assms)

lemma find_1hr_slot_loop_Found_probe:
  "find_1hr_slot_loop env current candidate_end w = (Inr (Some (s, e)), w') \<Longrightarrow>
     datetime_add s (timedelta_of 0 1 0) = Inr e \<and> datetime_le e candidate_end
     \<and> (\<exists>w1. is_slot_free_for_both env RECRUITER_EMAIL CANDIDATE_EMAIL s e w1 = (Inr True, w'))"
proof (induction env current candidate_end w rule: find_1hr_slot_loop.induct)
  case (1 env current candidate_end w)
  from "1.prems" obtain slot_end where a: "datetime_add current (timedelta_of 0 1 0) = Inr slot_end"
    and le: "datetime_le slot_end candidate_end"
    by (subst (asm) find_1hr_slot_loop.simps) (auto split: sum.splits if_splits)
  obtain x w1 where p: "is_slot_free_for_both env RECRUITER_EMAIL CANDIDATE_EMAIL current slot_end w = (x, w1)"
    by (cases "is_slot_free_for_both env RECRUITER_EMAIL CANDIDATE_EMAIL current slot_end w")
  from "1.prems" a le p obtain is_free where x: "x = Inr is_free"
    by (subst (asm) find_1hr_slot_loop.simps) (cases x; simp)
  show ?case
  proof (cases is_free)
    case True
    then have "(Inr (Some (s, e)), w') = (Inr (Some (current, slot_end)), w1)"
      using "1.prems" a le p x by (subst (asm) find_1hr_slot_loop.simps) simp
    then show ?thesis using a le p x True by auto
  next
    case False
    then have "find_1hr_slot_loop env slot_end candidate_end w1 = (Inr (Some (s, e)), w')"
      using "1.prems" a le p x by (subst (asm) find_1hr_slot_loop.simps) simp
    then show ?thesis
      using "1.IH"[OF a le p[symmetric] x] False by simp
  qed
qed

subsection \<open>The range-constrained loop\<close>

lemma find_1hr_slot_loop_eq_probe:
  "find_1hr_slot_loop env current candidate_end w
     = probe_slots env (fst (hourly_slots current candidate_end))
         (snd (hourly_slots current candidate_end)) w"
proof (induction env current candidate_end w rule: find_1hr_slot_loop.induct)
  case (1 env current candidate_end w)
  show ?case
  proof (cases "datetime_add current (timedelta_of 0 1 0)")
    case (Inl e)
    then show ?thesis
      by (subst find_1hr_slot_loop.simps, subst (1 2) hourly_slots.simps) simp
  next
    case (Inr slot_end)
    show ?thesis
    proof (cases "datetime_le slot_end candidate_end")
      case False
      then show ?thesis
        using Inr by (subst find_1hr_slot_loop.simps, subst (1 2) hourly_slots.simps) simp
    next
      case True
      obtain x w1 where p: "is_slot_free_for_both env RECRUITER_EMAIL CANDIDATE_EMAIL current slot_end w = (x, w1)"
        by (cases "is_slot_free_for_both env RECRUITER_EMAIL CANDIDATE_EMAIL current slot_end w")
      have h: "hourly_slots current candidate_end =
          ((current, slot_end) # fst (hourly_slots slot_end candidate_end),
           snd (hourly_slots slot_end candidate_end))"
        using Inr True by (subst hourly_slots.simps) (simp split: prod.splits)
      show ?thesis
      proof (cases x)
        case (Inl e)
        then show ?thesis
          using Inr True p by (subst find_1hr_slot_loop.simps) (simp add: h)
      next
        case r: (Inr is_free)
        show ?thesis
        proof (cases is_free)
          case True
          then show ?thesis
            using Inr \<open>datetime_le slot_end candidate_end\<close> p r
            by (subst find_1hr_slot_loop.simps) (simp add: h)
        next
          case False
          have "find_1hr_slot_loop env current candidate_end w
              = find_1hr_slot_loop env slot_end candidate_end w1"
            using Inr True p r False by (subst find_1hr_slot_loop.simps) simp
          also have "\<dots> = probe_slots env (fst (hourly_slots slot_end candidate_end))
              (snd (hourly_slots slot_end candidate_end)) w1"
            using "1.IH"[OF Inr True p[symmetric] r] False by simp
          finally show ?thesis using p r False by (simp add: h)
        qed
      qed
    qed
  qed
qed

lemma first_probe_eq:
  assumes "valid_datetime t"
  shows "(if datetime_less (t\<lparr>minute := 0, second := 0, microsecond := 0\<rparr>) t
          then datetime_add (t\<lparr>minute := 0, second := 0, microsecond := 0\<rparr>) (timedelta_of 0 1 0)
          else Inr (t\<lparr>minute := 0, second := 0, microsecond := 0\<rparr>))
       = round_up_to_hour t"
proof (cases "on_the_hour t")
  case True
  then have "t\<lparr>minute := 0, second := 0, microsecond := 0\<rparr> = t"
    by (simp add: on_the_hour_def)
  then show ?thesis using True by (simp add: round_up_to_hour_def datetime_less_def)
next
  case False
  then have "datetime_less (t\<lparr>minute := 0, second := 0, microsecond := 0\<rparr>) t"
    using assms unfolding on_the_hour_def valid_datetime_def datetime_less_def cmp_key_def
    by auto
  then show ?thesis using False by (simp add: round_up_to_hour_def)
qed

lemma find_1hr_slot_within_range_eq:
  assumes "valid_datetime candidate_start"
  shows "find_1hr_slot_within_range env candidate_start candidate_end w =
     (case round_up_to_hour candidate_start of
        Inl e \<Rightarrow> (Inl e, w)
      | Inr first \<Rightarrow> probe_slots env (fst (hourly_slots first candidate_end))
                      (snd (hourly_slots first candidate_end)) w)"
  unfolding find_1hr_slot_within_range_def Let_def first_probe_eq[OF assms]
  by (simp add: find_1hr_slot_loop_eq_probe split: sum.splits)

lemma round_up_to_hour_Inr:
  assumes "valid_datetime t" "round_up_to_hour t = Inr first"
  shows "on_the_hour first" "datetime_le t first" "valid_datetime first"
proof -
  have "on_the_hour first \<and> datetime_le t first \<and> valid_datetime first"
  proof (cases "on_the_hour t")
    case True
    then show ?thesis using assms by (simp add: round_up_to_hour_def)
  next
    case False
    define c where "c = t\<lparr>minute := 0, second := 0, microsecond := 0\<rparr>"
    have vc: "valid_datetime c" using assms(1) by (simp add: c_def valid_datetime_def)
    have a: "datetime_add c (timedelta_of 0 1 0) = Inr first"
      using assms(2) False by (simp add: round_up_to_hour_def c_def)
    have "first = c\<lparr>hour := hour c + 1\<rparr> \<or> first = c\<lparr>toordinal := toordinal c + 1, hour := 0\<rparr>"
      using a datetime_add_hour[OF vc] by (auto split: if_splits)
    then show ?thesis
      using datetime_add_valid[OF a]
      by (auto simp: c_def on_the_hour_def datetime_le_def cmp_key_def)
  qed
  then show "on_the_hour first" "datetime_le t first" "valid_datetime first" by simp_all
qed

lemma hourly_slots_props:
  "valid_datetime current \<Longrightarrow> on_the_hour current \<Longrightarrow>
     consecutive_from current (fst (hourly_slots current range_end))
     \<and> (\<forall>(s, e) \<in> set (fst (hourly_slots current range_end)).
           on_the_hour s \<and> datetime_add s (timedelta_of 0 1 0) = Inr e \<and> datetime_le e range_end)"
proof (induction current range_end rule: hourly_slots.induct)
  case (1 current range_end)
  show ?case
  proof (cases "datetime_add current (timedelta_of 0 1 0)")
    case (Inl e)
    then show ?thesis by (subst (1 2) hourly_slots.simps) simp
  next
    case (Inr slot_end)
    show ?thesis
    proof (cases "datetime_le slot_end range_end")
      case False
      then show ?thesis using Inr by (subst (1 2) hourly_slots.simps) simp
    next
      case True
      have h: "fst (hourly_slots current range_end)
          = (current, slot_end) # fst (hourly_slots slot_end range_end)"
        using Inr True by (subst hourly_slots.simps) (simp split: prod.splits)
      have "slot_end = current\<lparr>hour := hour current + 1\<rparr>
          \<or> slot_end = current\<lparr>toordinal := toordinal current + 1, hour := 0\<rparr>"
        using Inr datetime_add_hour[OF "1.prems"(1)] by (auto split: if_splits)
      then have o: "on_the_hour slot_end" using "1.prems"(2) by (auto simp: on_the_hour_def)
      from "1.IH"[OF Inr True datetime_add_valid[OF Inr] o]
      show ?thesis unfolding h using Inr True "1.prems"(2) by simp
    qed
  qed
qed

lemma probe_slots_clock: "clock_reads (snd (probe_slots env slots raised w)) = clock_reads w"
proof (induction env slots raised w rule: probe_slots.induct)
  case (1 env raised w)
  then show ?case by (simp split: option.splits)
next
  case (2 env slot_start slot_end slots raised w)
  obtain x w1 where p: "is_slot_free_for_both env RECRUITER_EMAIL CANDIDATE_EMAIL slot_start slot_end w = (x, w1)"
    by (cases "is_slot_free_for_both env RECRUITER_EMAIL CANDIDATE_EMAIL slot_start slot_end w")
  note c = is_slot_free_for_both_world(1)[OF p]
  show ?case
  proof (cases x)
    case (Inl e)
    then show ?thesis using p c by simp
  next
    case (Inr is_free)
    then show ?thesis using p c "2.IH"[OF p[symmetric] Inr] by (cases is_free) simp_all
  qed
qed

subsection \<open>A failing query reaches the caller of the search\<close>

lemma get_busy_slots_fails_at:
  assumes "\<forall>body. freebusy_tape env k body = Inl err" and "queries w \<le> k"
    and "get_busy_slots env email s e w = (x, w1)"
  shows "queries w1 \<le> k \<or> (x = Inl err \<and> queries w1 = k + 1)"
proof (cases "queries w = k")
  case True
  then show ?thesis
    using assms(1,3) unfolding get_busy_slots_def Let_def
    by (auto split: sum.splits)
next
  case False
  then have "queries w + 1 \<le> k" using assms(2) by simp
  then show ?thesis
    using get_busy_slots_world(3)[OF assms(3)] by simp
qed

lemma is_slot_free_for_both_fails_at:
  assumes "\<forall>body. freebusy_tape env k body = Inl err" and "queries w \<le> k"
    and "is_slot_free_for_both env a b s e w = (x, w2)"
  shows "queries w2 \<le> k \<or> (x = Inl err \<and> queries w2 = k + 1)"
proof -
  obtain x1 w1 where g1: "get_busy_slots env a s e w = (x1, w1)"
    by (cases "get_busy_slots env a s e w")
  note f1 = get_busy_slots_fails_at[OF assms(1,2) g1]
  show ?thesis
  proof (cases x1)
    case (Inl e1)
    then have "(x, w2) = (Inl e1, w1)"
      using assms(3) g1 unfolding is_slot_free_for_both_def by simp
    then show ?thesis using f1 Inl by auto
  next
    case (Inr rb)
    then have q1: "queries w1 \<le> k" using f1 by auto
    obtain x2 w2' where g2: "get_busy_slots env b s e w1 = (x2, w2')"
      by (cases "get_busy_slots env b s e w1")
    note f2 = get_busy_slots_fails_at[OF assms(1) q1 g2]
    show ?thesis
    proof (cases x2)
      case (Inl e2)
      then have "(x, w2) = (Inl e2, w2')"
        using assms(3) g1 g2 Inr unfolding is_slot_free_for_both_def by simp
      then show ?thesis using f2 Inl by auto
    next
      case r2: (Inr cb)
      then have "w2 = w2'"
        using assms(3) g1 g2 Inr unfolding is_slot_free_for_both_def by simp
      then show ?thesis using f2 r2 by auto
    qed
  qed
qed

lemma seed_iteration_fails_at:
  assumes "\<forall>body. freebusy_tape env k body = Inl err" and "queries w \<le> k"
    and "seed_iteration env current w = (out, w2)"
  shows "queries w2 \<le> k \<or> (out = Raised err \<and> queries w2 = k + 1)"
proof -
  obtain r1 w1 where c: "clamp_to_future_2025 env current w = (r1, w1)"
    by (cases "clamp_to_future_2025 env current w")
  have w1: "queries w1 = queries w"
    using clamp_to_future_2025_world[OF c] by simp
  have q1: "queries w1 \<le> k" using w1 assms(2) by simp
  show ?thesis
  proof (cases r1)
    case (Inl e1)
    then have "w2 = w1" using assms(3) c unfolding seed_iteration_def by simp
    then show ?thesis using q1 by simp
  next
    case c1: (Inr c1)
    show ?thesis
    proof (cases "clamp_to_working_hours c1")
      case (Inl e2)
      then have "w2 = w1" using assms(3) c c1 unfolding seed_iteration_def by simp
      then show ?thesis using q1 by simp
    next
      case c2: (Inr c2)
      show ?thesis
      proof (cases "datetime_add c2 (timedelta_of 0 1 0)")
        case (Inl e3)
        then have "w2 = w1" using assms(3) c c1 c2 unfolding seed_iteration_def by simp
        then show ?thesis using q1 by simp
      next
        case ec: (Inr end_current)
        obtain x w2' where p: "is_slot_free_for_both env RECRUITER_EMAIL CANDIDATE_EMAIL c2
            end_current w1 = (x, w2')"
          by (cases "is_slot_free_for_both env RECRUITER_EMAIL CANDIDATE_EMAIL c2 end_current w1")
        note f = is_slot_free_for_both_fails_at[OF assms(1) q1 p]
        show ?thesis
        proof (cases x)
          case (Inl e4)
          then have "(out, w2) = (Raised e4, w2')"
            using assms(3) c c1 c2 ec p unfolding seed_iteration_def by simp
          then show ?thesis using f Inl by auto
        next
          case (Inr is_free)
          then have "w2 = w2'"
            using assms(3) c c1 c2 ec p unfolding seed_iteration_def by (simp split: if_splits)
          then show ?thesis using f Inr by auto
        qed
      qed
    qed
  qed
qed

lemma find_first_free_slot_loop_fails_at:
  assumes "\<forall>body. freebusy_tape env k body = Inl err"
    and "queries w \<le> k"
    and "find_first_free_slot_loop env current a w = (r, n, w')"
    and "k < queries w'"
  shows "r = Inl err \<and> queries w' = k + 1"
  using assms(2,3,4)
proof (induction "max_attempts - a" arbitrary: a current w)
  case 0
  then have "\<not> a < max_attempts" by simp
  then have "find_first_free_slot_loop env current a w = (Inr None, a, w)"
    by (subst find_first_free_slot_loop_unfold) simp
  then show ?case using "0.prems" by simp
next
  case (Suc j)
  then have lt: "a < max_attempts" by simp
  obtain out w1 where it: "seed_iteration env current w = (out, w1)"
    by (cases "seed_iteration env current w")
  note f = seed_iteration_fails_at[OF assms(1) Suc.prems(1) it]
  show ?case
  proof (cases out)
    case (Raised e)
    then have "(r, n, w') = (Inl e, a, w1)"
      using Suc.prems(2) lt it by (subst (asm) find_first_free_slot_loop_unfold) simp
    then show ?thesis using f Raised Suc.prems(3) by auto
  next
    case (Found s)
    then have "(r, n, w') = (Inr (Some s), a, w1)"
      using Suc.prems(2) lt it by (subst (asm) find_first_free_slot_loop_unfold) simp
    then show ?thesis using f Found Suc.prems(3) by auto
  next
    case (Advance c)
    then have rec: "find_first_free_slot_loop env c (a + 1) w1 = (r, n, w')"
      using Suc.prems(2) lt it by (subst (asm) find_first_free_slot_loop_unfold) simp
    have q: "queries w1 \<le> k" using f Advance by auto
    have j: "j = max_attempts - (a + 1)" using Suc.hyps(2) by simp
    show ?thesis by (rule Suc.hyps(1)[OF j q rec Suc.prems(3)])
  qed
qed

lemma find_1hr_slot_loop_fails_at:
  assumes "\<forall>body. freebusy_tape env k body = Inl err"
  shows "queries w \<le> k \<Longrightarrow> find_1hr_slot_loop env current candidate_end w = (r, w') \<Longrightarrow>
     k < queries w' \<Longrightarrow> r = Inl err \<and> queries w' = k + 1"
  using assms
proof (induction env current candidate_end w rule: find_1hr_slot_loop.induct)
  case (1 env current candidate_end w)
  show ?case
  proof (cases "datetime_add current (timedelta_of 0 1 0)")
    case (Inl e)
    then have "(r, w') = (Inl e, w)"
      using "1.prems"(2) by (subst (asm) find_1hr_slot_loop.simps) simp
    then show ?thesis using "1.prems"(1,3) by simp
  next
    case (Inr slot_end)
    show ?thesis
    proof (cases "datetime_le slot_end candidate_end")
      case False
      then have "(r, w') = (Inr None, w)"
        using "1.prems"(2) Inr by (subst (asm) find_1hr_slot_loop.simps) simp
      then show ?thesis using "1.prems"(1,3) by simp
    next
      case True
      obtain x w1 where p: "is_slot_free_for_both env RECRUITER_EMAIL CANDIDATE_EMAIL current slot_end w = (x, w1)"
        by (cases "is_slot_free_for_both env RECRUITER_EMAIL CANDIDATE_EMAIL current slot_end w")
      note f = is_slot_free_for_both_fails_at[OF "1.prems"(4) "1.prems"(1) p]
      show ?thesis
      proof (cases x)
        case (Inl e)
        then have "(r, w') = (Inl e, w1)"
          using "1.prems"(2) Inr True p by (subst (asm) find_1hr_slot_loop.simps) simp
        then show ?thesis using f Inl "1.prems"(3) by auto
      next
        case x: (Inr is_free)
        then have q: "queries w1 \<le> k" using f by auto
        show ?thesis
        proof (cases is_free)
          case True
          then have "(r, w') = (Inr (Some (current, slot_end)), w1)"
            using "1.prems"(2) Inr \<open>datetime_le slot_end candidate_end\<close> p x
            by (subst (asm) find_1hr_slot_loop.simps) simp
          then show ?thesis using q "1.prems"(3) by simp
        next
          case False
          then have rec: "find_1hr_slot_loop env slot_end candidate_end w1 = (r, w')"
            using "1.prems"(2) Inr True p x by (subst (asm) find_1hr_slot_loop.simps) simp
          show ?thesis
            using "1.IH"[OF Inr True p[symmetric] x _ q rec "1.prems"(3,4)] False by simp
        qed
      qed
    qed
  qed
qed

lemma find_first_free_slot_fails_at:
  assumes "\<forall>body. freebusy_tape env k body = Inl err" and "queries w \<le> k"
    and "find_first_free_slot env start_ist w = (r, w')" and "k < queries w'"
  shows "r = Inl err \<and> queries w' = k + 1"
proof -
  from assms(3) obtain n where "find_first_free_slot_loop env start_ist 0 w = (r, n, w')"
    unfolding find_first_free_slot_def by (auto split: prod.splits)
  from find_first_free_slot_loop_fails_at[OF assms(1,2) this assms(4)] show ?thesis .
qed

lemma find_1hr_slot_within_range_fails_at:
  assumes "\<forall>body. freebusy_tape env k body = Inl err" and "queries w \<le> k"
    and "find_1hr_slot_within_range env candidate_start candidate_end w = (r, w')"
    and "k < queries w'"
  shows "r = Inl err \<and> queries w' = k + 1"
proof -
  define current where "current = candidate_start\<lparr>minute := 0, second := 0, microsecond := 0\<rparr>"
  define first where "first = (if datetime_less current candidate_start
      then datetime_add current (timedelta_of 0 1 0) else Inr current)"
  have e: "find_1hr_slot_within_range env candidate_start candidate_end w =
      (case first of Inl e \<Rightarrow> (Inl e, w) | Inr c \<Rightarrow> find_1hr_slot_loop env c candidate_end w)"
    unfolding find_1hr_slot_within_range_def Let_def first_def current_def by simp
  show ?thesis
  proof (cases first)
    case (Inl e')
    then have "(r, w') = (Inl e', w)" using assms(3) e by simp
    then show ?thesis using assms(2,4) by simp
  next
    case (Inr c)
    then have "find_1hr_slot_loop env c candidate_end w = (r, w')" using assms(3) e by simp
    from find_1hr_slot_loop_fails_at[OF assms(1,2) this assms(4)] show ?thesis .
  qed
qed

subsection \<open>Example runs\<close>

lemma at_simps:
  "toordinal (at y m d hh mm) = ymd2ord y m d" "hour (at y m d hh mm) = hh"
  "minute (at y m d hh mm) = mm" "second (at y m d hh mm) = 0"
  "microsecond (at y m d hh mm) = 0"
  by (simp_all add: at_def)

lemma seed_example_free:
  "find_first_free_slot (always_free (at 2025 3 17 6 30)) (at 2025 3 15 10 30) start_world
     = (Inr (Some (at 2025 3 17 12 0)), \<lparr>clock_reads = 1, queries = 2\<rparr>)"
proof -
  have c1: "clamp_to_future_2025 (always_free (at 2025 3 17 6 30)) (at 2025 3 15 10 30) start_world
      = (Inr (at 2025 3 17 12 0), \<lparr>clock_reads = 1, queries = 0\<rparr>)" by code_simp
  have c2: "clamp_to_working_hours (at 2025 3 17 12 0) = Inr (at 2025 3 17 12 0)" by code_simp
  have v1: "valid_datetime (at 2025 3 17 12 0)" "2 \<le> toordinal (at 2025 3 17 12 0)"
    by code_simp+
  from seed_iteration_free[OF reports_free_always_free c1 c2 v1]
  have "find_first_free_slot (always_free (at 2025 3 17 6 30)) (at 2025 3 15 10 30) start_world
      = (Inr (Some (at 2025 3 17 12 0)), \<lparr>clock_reads = 1, queries = 0\<rparr>\<lparr>queries := queries \<lparr>clock_reads = 1, queries = 0\<rparr> + 2\<rparr>)"
    by (rule find_first_free_slot_Found)
  then show ?thesis by simp
qed

lemma range_example_slots:
  "round_up_to_hour (at 2025 3 24 14 7) = Inr (at 2025 3 24 15 0)"
  "hourly_slots (at 2025 3 24 15 0) (at 2025 3 24 16 0)
     = ([(at 2025 3 24 15 0, at 2025 3 24 16 0)], None)"
  "valid_datetime (at 2025 3 24 14 7)"
  by code_simp+

lemma range_example_free:
  "find_1hr_slot_within_range (always_free (at 2025 3 17 6 30)) (at 2025 3 24 14 7)
       (at 2025 3 24 16 0) start_world
     = (Inr (Some (at 2025 3 24 15 0, at 2025 3 24 16 0)), \<lparr>clock_reads = 0, queries = 2\<rparr>)"
proof -
  have u: "to_utc (at 2025 3 24 15 0) = Inr (at 2025 3 24 9 30)"
    "to_utc (at 2025 3 24 16 0) = Inr (at 2025 3 24 10 30)" by code_simp+
  show ?thesis
    unfolding find_1hr_slot_within_range_eq[OF range_example_slots(3)] range_example_slots(1,2)
    by (simp add: range_example_slots(2) is_slot_free_for_both_free[OF reports_free_always_free u]
        start_world_def)
qed

lemma candidate_fails_example:
  "clamp_to_future_2025 (candidate_query_fails (at 2025 3 17 6 30)) (at 2025 3 18 10 0) start_world
     = (Inr (at 2025 3 18 10 0), \<lparr>clock_reads = 1, queries = 0\<rparr>)"
  "clamp_to_working_hours (at 2025 3 18 10 0) = Inr (at 2025 3 18 10 0)"
  "datetime_add (at 2025 3 18 10 0) (timedelta_of 0 1 0) = Inr (at 2025 3 18 11 0)"
  "datetime_le (at 2025 3 18 11 0) (at 2025 3 18 12 0)"
  by code_simp+

lemma candidate_fails_queries:
  "get_busy_slots (candidate_query_fails (at 2025 3 17 6 30)) RECRUITER_EMAIL
       (at 2025 3 18 10 0) (at 2025 3 18 11 0) \<lparr>clock_reads = 1, queries = 0\<rparr>
     = (Inr [], \<lparr>clock_reads = 1, queries = 1\<rparr>)"
  "get_busy_slots (candidate_query_fails (at 2025 3 17 6 30)) CANDIDATE_EMAIL
       (at 2025 3 18 10 0) (at 2025 3 18 11 0) \<lparr>clock_reads = 1, queries = 1\<rparr>
     = (Inl (QueryError ''503 backend error''), \<lparr>clock_reads = 1, queries = 2\<rparr>)"
  by code_simp+

lemma query_fails_at_3: "\<forall>body. freebusy_tape (query_fails_at 3 answer now_utc) 3 body
    = Inl (QueryError ''503 backend error'')"
  by (simp add: query_fails_at_def)

lemma seed_example_fails:
  "find_first_free_slot (query_fails_at 3 busy_response (at 2025 3 17 6 30)) (at 2025 3 18 10 0)
       start_world
     = (Inl (QueryError ''503 backend error''), \<lparr>clock_reads = 2, queries = 4\<rparr>)"
proof -
  define w1 where "w1 = \<lparr>clock_reads = 1, queries = 2\<rparr>"
  define w2 where "w2 = \<lparr>clock_reads = 2, queries = 4\<rparr>"
  have i0: "seed_iteration (query_fails_at 3 busy_response (at 2025 3 17 6 30))
       (at 2025 3 18 10 0) start_world = (Advance (at 2025 3 18 11 0), w1)"
    unfolding w1_def by code_simp
  have i1: "seed_iteration (query_fails_at 3 busy_response (at 2025 3 17 6 30))
       (at 2025 3 18 11 0) w1 = (Raised (QueryError ''503 backend error''), w2)"
    unfolding w1_def w2_def by code_simp
  have "find_first_free_slot_loop (query_fails_at 3 busy_response (at 2025 3 17 6 30))
       (at 2025 3 18 11 0) (0 + 1) w1 = (Inl (QueryError ''503 backend error''), 0 + 1, w2)"
    by (subst find_first_free_slot_loop_unfold) (simp add: i1 max_attempts_def)
  then have "find_first_free_slot_loop (query_fails_at 3 busy_response (at 2025 3 17 6 30))
       (at 2025 3 18 10 0) 0 start_world = (Inl (QueryError ''503 backend error''), 0 + 1, w2)"
    by (subst find_first_free_slot_loop_unfold) (simp add: i0 max_attempts_def)
  then show ?thesis unfolding find_first_free_slot_def w2_def by simp
qed

lemma range_example_fails:
  "find_1hr_slot_within_range (query_fails_at 3 busy_response (at 2025 3 17 6 30))
       (at 2025 3 24 10 0) (at 2025 3 24 12 0) start_world
     = (Inl (QueryError ''503 backend error''), \<lparr>clock_reads = 0, queries = 4\<rparr>)"
proof -
  have v: "valid_datetime (at 2025 3 24 10 0)" by code_simp
  have r: "round_up_to_hour (at 2025 3 24 10 0) = Inr (at 2025 3 24 10 0)" by code_simp
  have h: "hourly_slots (at 2025 3 24 10 0) (at 2025 3 24 12 0)
      = ([(at 2025 3 24 10 0, at 2025 3 24 11 0), (at 2025 3 24 11 0, at 2025 3 24 12 0)], None)"
    by code_simp
  have p0: "is_slot_free_for_both (query_fails_at 3 busy_response (at 2025 3 17 6 30))
       RECRUITER_EMAIL CANDIDATE_EMAIL (at 2025 3 24 10 0) (at 2025 3 24 11 0) start_world
     = (Inr False, \<lparr>clock_reads = 0, queries = 2\<rparr>)" by code_simp
  have p1: "is_slot_free_for_both (query_fails_at 3 busy_response (at 2025 3 17 6 30))
       RECRUITER_EMAIL CANDIDATE_EMAIL (at 2025 3 24 11 0) (at 2025 3 24 12 0)
       \<lparr>clock_reads = 0, queries = 2\<rparr>
     = (Inl (QueryError ''503 backend error''), \<lparr>clock_reads = 0, queries = 4\<rparr>)"
    by code_simp
  show ?thesis
    unfolding find_1hr_slot_within_range_eq[OF v] r by (simp add: h p0 p1)
qed

subsection \<open>The candidates of the seed-time search never decrease\<close>

lemma datetime_le_linear: "datetime_le a b \<or> datetime_le b a"
  unfolding datetime_le_def by (rule linear)

lemma clamp_to_future_2025_le:
  assumes "valid_datetime t" and "clamp_to_future_2025 env t w = (Inr r, w1)"
  shows "datetime_le t r"
proof -
  obtain x w0 where g: "get_now_ist env w = (x, w0)" by (cases "get_now_ist env w")
  from assms(2) g obtain now_ist where x: "x = Inr now_ist"
    unfolding clamp_to_future_2025_def by (cases x) auto
  from clamp_to_future_2025_result[OF assms(1) g[unfolded x] assms(2)]
  obtain floor t1 where
    t1: "if year t < 2025 then replace_year t 2025 = Inr t1 \<and> year t1 = 2025 else t1 = t"
    and r: "r = (if datetime_less t1 floor then floor else t1)"
    and le: "datetime_le floor r"
    by (cases "year t < 2025") auto
  have "datetime_le t t1"
  proof (cases "year t < 2025")
    case True
    then have e: "replace_year t 2025 = Inr t1" using t1 by simp
    have "739252 \<le> toordinal t1"
      by (rule new_datetime_2025_fields(9)[OF e[unfolded replace_year_def]])
    then have "toordinal t < toordinal t1" using year_2025_ordinal[OF True] by simp
    then show ?thesis by (rule datetime_le_ordinal_less)
  next
    case False
    then show ?thesis using t1 by simp
  qed
  moreover have "datetime_le t1 r"
    unfolding r using datetime_le_linear[of floor t1] by (auto simp: datetime_less_le)
  ultimately show ?thesis by (rule datetime_le_trans)
qed

lemma seed_iteration_le:
  assumes "valid_datetime current"
  shows "seed_iteration env current w = (Found s, w2) \<Longrightarrow> datetime_le current s"
    and "seed_iteration env current w = (Advance c, w2) \<Longrightarrow> datetime_le current c"
proof -
  {
    fix c1 c2 w1
    assume c1: "clamp_to_future_2025 env current w = (Inr c1, w1)"
      and c2: "clamp_to_working_hours c1 = Inr c2"
    have v1: "valid_datetime c1" by (rule clamp_to_future_2025_floor(2)[OF assms c1])
    have "datetime_le current c1" by (rule clamp_to_future_2025_le[OF assms c1])
    moreover have "datetime_le c1 c2" "valid_datetime c2"
      using clamp_to_working_hours_le[OF v1 c2] by simp_all
    ultimately have "datetime_le current c2" "valid_datetime c2"
      using datetime_le_trans by blast+
  } note step = this
  {
    assume "seed_iteration env current w = (Found s, w2)"
    then obtain c1 w1 where "clamp_to_future_2025 env current w = (Inr c1, w1)"
      "clamp_to_working_hours c1 = Inr s"
      unfolding seed_iteration_def by (auto split: sum.splits prod.splits if_splits)
    then show "datetime_le current s" using step(1) by blast
  }
  {
    assume "seed_iteration env current w = (Advance c, w2)"
    then obtain c1 w1 c2 where c: "clamp_to_future_2025 env current w = (Inr c1, w1)"
      "clamp_to_working_hours c1 = Inr c2" and a: "datetime_add c2 (timedelta_of 0 1 0) = Inr c"
      unfolding seed_iteration_def by (auto split: sum.splits prod.splits if_splits)
    have "datetime_le c2 c"
      using a datetime_add_hour[OF step(2)[OF c]]
      by (auto simp: datetime_le_def cmp_key_def split: if_splits)
    then show "datetime_le current c" using step(1)[OF c] datetime_le_trans by blast
  }
qed

lemma seed_example_iterations:
  "seed_iteration (always_free (at 2025 3 17 6 30)) (at 2025 3 15 10 30) start_world
     = (Found (at 2025 3 17 12 0), \<lparr>clock_reads = 1, queries = 2\<rparr>)"
  "seed_iteration (always_busy (at 2025 3 17 6 30)) (at 2025 3 15 10 30) start_world
     = (Advance (at 2025 3 17 13 0), \<lparr>clock_reads = 1, queries = 2\<rparr>)"
proof -
  have c1: "clamp_to_future_2025 (always_free (at 2025 3 17 6 30)) (at 2025 3 15 10 30) start_world
      = (Inr (at 2025 3 17 12 0), \<lparr>clock_reads = 1, queries = 0\<rparr>)" by code_simp
  have c1': "clamp_to_future_2025 (always_busy (at 2025 3 17 6 30)) (at 2025 3 15 10 30) start_world
      = (Inr (at 2025 3 17 12 0), \<lparr>clock_reads = 1, queries = 0\<rparr>)" by code_simp
  have c2: "clamp_to_working_hours (at 2025 3 17 12 0) = Inr (at 2025 3 17 12 0)" by code_simp
  have v1: "valid_datetime (at 2025 3 17 12 0)" "2 \<le> toordinal (at 2025 3 17 12 0)"
    by code_simp+
  have h: "(at 2025 3 17 12 0)\<lparr>hour := hour (at 2025 3 17 12 0) + 1\<rparr> = at 2025 3 17 13 0"
    by (simp add: at_def)
  show "seed_iteration (always_free (at 2025 3 17 6 30)) (at 2025 3 15 10 30) start_world
     = (Found (at 2025 3 17 12 0), \<lparr>clock_reads = 1, queries = 2\<rparr>)"
    using seed_iteration_free[OF reports_free_always_free c1 c2 v1] by simp
  show "seed_iteration (always_busy (at 2025 3 17 6 30)) (at 2025 3 15 10 30) start_world
     = (Advance (at 2025 3 17 13 0), \<lparr>clock_reads = 1, queries = 2\<rparr>)"
    using seed_iteration_busy[OF reports_busy_always_busy c1' c2 v1] by (simp add: h)
qed

section \<open>The claims\<close>



text \<open>
  Claim C2.  For every range, \<^verbatim>\<open>find_1hr_slot_within_range\<close> rounds the start of the range
  up to the next exact hour when it has a nonzero minute, second or microsecond, and then
  does what probing the hourly slots one by one does: the slots are \<open>[current, current + 1h)\<close>
  with \<open>current\<close> on the hour, consecutive from the rounded start, each ending at or before
  the end of the range; the first one the oracle reports free for both is returned, and
  \<^verbatim>\<open>None\<close> if there is none.  Nothing else is done to a slot before it is probed: no clamp,
  and the clock is never read.
\<close>

theorem C2_range_search_probes_hourly_slots:
  assumes "valid_datetime candidate_start"
  shows "find_1hr_slot_within_range env candidate_start candidate_end w =
        (case round_up_to_hour candidate_start of
           Inl e \<Rightarrow> (Inl e, w)
         | Inr first \<Rightarrow> probe_slots env (fst (hourly_slots first candidate_end))
                         (snd (hourly_slots first candidate_end)) w)
     \<and> (\<forall>first. round_up_to_hour candidate_start = Inr first \<longrightarrow>
            on_the_hour first \<and> datetime_le candidate_start first
          \<and> consecutive_from first (fst (hourly_slots first candidate_end))
          \<and> (\<forall>(s, e) \<in> set (fst (hourly_slots first candidate_end)).
                on_the_hour s \<and> datetime_add s (timedelta_of 0 1 0) = Inr e
              \<and> datetime_le e candidate_end))
     \<and> clock_reads (snd (find_1hr_slot_within_range env candidate_start candidate_end w))
         = clock_reads w"
proof (intro conjI allI impI)
  show e: "find_1hr_slot_within_range env candidate_start candidate_end w =
        (case round_up_to_hour candidate_start of
           Inl e \<Rightarrow> (Inl e, w)
         | Inr first \<Rightarrow> probe_slots env (fst (hourly_slots first candidate_end))
                         (snd (hourly_slots first candidate_end)) w)"
    by (rule find_1hr_slot_within_range_eq[OF assms])
  show "clock_reads (snd (find_1hr_slot_within_range env candidate_start candidate_end w))
         = clock_reads w"
    unfolding e by (simp add: probe_slots_clock split: sum.splits)
next
  fix first
  assume r: "round_up_to_hour candidate_start = Inr first"
  note f = round_up_to_hour_Inr[OF assms r]
  show "on_the_hour first" "datetime_le candidate_start first" by (rule f)+
  show "consecutive_from first (fst (hourly_slots first candidate_end))"
    "\<forall>(s, e) \<in> set (fst (hourly_slots first candidate_end)).
        on_the_hour s \<and> datetime_add s (timedelta_of 0 1 0) = Inr e \<and> datetime_le e candidate_end"
    using hourly_slots_props[OF f(3) f(1), of candidate_end] by simp_all
qed

text \<open>
  A range starting at 14:07 and ending at 16:00 has 15:00 as its first (and only) probed
  slot, which a free calendar returns.
\<close>

theorem C2_range_search_probes_hourly_slots_witness:
  "valid_datetime (at 2025 3 24 14 7)
   \<and> round_up_to_hour (at 2025 3 24 14 7) = Inr (at 2025 3 24 15 0)
   \<and> hourly_slots (at 2025 3 24 15 0) (at 2025 3 24 16 0)
       = ([(at 2025 3 24 15 0, at 2025 3 24 16 0)], None)
   \<and> find_1hr_slot_within_range (always_free (at 2025 3 17 6 30)) (at 2025 3 24 14 7)
         (at 2025 3 24 16 0) start_world
       = (Inr (Some (at 2025 3 24 15 0, at 2025 3 24 16 0)), \<lparr>clock_reads = 0, queries = 2\<rparr>)
   \<and> on_the_hour (at 2025 3 24 15 0)
   \<and> datetime_le (at 2025 3 24 14 7) (at 2025 3 24 15 0)
   \<and> datetime_add (at 2025 3 24 15 0) (timedelta_of 0 1 0) = Inr (at 2025 3 24 16 0)"
proof -
  note c = C2_range_search_probes_hourly_slots[OF range_example_slots(3),
      of "always_free (at 2025 3 17 6 30)" "at 2025 3 24 16 0" start_world]
  from c have "on_the_hour (at 2025 3 24 15 0)"
    "datetime_le (at 2025 3 24 14 7) (at 2025 3 24 15 0)"
    "datetime_add (at 2025 3 24 15 0) (timedelta_of 0 1 0) = Inr (at 2025 3 24 16 0)"
    using range_example_slots(1,2) by auto
  then show ?thesis using range_example_slots range_example_free by simp
qed

text \<open>
  Claim C3.  For every datetime \<open>t\<close>, \<^verbatim>\<open>clamp_to_working_hours\<close> computes the case split
  of the specification: weekend days are skipped to 09:00 of the next Monday; a business
  day before 09:00 is lifted to 09:00 of the same day; a business day at 19:00 or later
  (exactly 19:00 included) rolls to 09:00 of the next day and on over a weekend; a business
  day with its hour in [9, 19) (exactly 09:00 included) is returned unchanged.  Both sides
  raise \<^verbatim>\<open>OverflowError\<close> on the same inputs.
\<close>

theorem C3_clamp_to_working_hours_case_split:
  assumes "valid_datetime t"
  shows "clamp_to_working_hours t = clampToWorkingHours_spec t"
proof (cases "weekday t \<ge> 5")
  case True
  have "clamp_to_working_hours t = clamp_weekend_loop t"
  proof (cases "clamp_weekend_loop t")
    case (Inl e)
    then show ?thesis unfolding clamp_to_working_hours_def by simp
  next
    case (Inr t1)
    then show ?thesis
      unfolding clamp_to_working_hours_def using clamp_weekend_loop_nine[OF True Inr] by simp
  qed
  then show ?thesis
    using True unfolding clampToWorkingHours_spec_def
    by (simp add: weekend_iff skip_weekend_spec_eq)
next
  case False
  then have wd: "weekday t < 5" by simp
  have l: "clamp_weekend_loop t = Inr t" by (rule clamp_weekend_loop_weekday_ok[OF wd])
  have r: "(case datetime_add t (timedelta_of 1 0 0) of Inl e \<Rightarrow> Inl e
            | Inr t2 \<Rightarrow> (case clamp_rollover_loop t2 of Inl e \<Rightarrow> Inl e
                          | Inr t3 \<Rightarrow> Inr (replace_time t3 9 0 0 0)))
         = (case datetime_add t (timedelta_of 1 0 0) of Inl e \<Rightarrow> Inl e
            | Inr t1 \<Rightarrow> skip_weekend_spec (replace_time t1 9 0 0 0))"
  proof (cases "datetime_add t (timedelta_of 1 0 0)")
    case (Inl e)
    then show ?thesis by simp
  next
    case (Inr t2)
    then show ?thesis
      using clamp_rollover_then_reset[OF datetime_add_valid[OF Inr]]
      by (simp add: skip_weekend_spec_eq)
  qed
  show ?thesis
    unfolding clamp_to_working_hours_def clampToWorkingHours_spec_def
    using False r by (simp add: l weekend_iff)
qed

text \<open>Friday 2025-03-14 at exactly 19:00 goes to Monday 2025-03-17 09:00.\<close>

theorem C3_clamp_to_working_hours_case_split_witness:
  "valid_datetime (at 2025 3 14 19 0)
   \<and> clamp_to_working_hours (at 2025 3 14 19 0) = clampToWorkingHours_spec (at 2025 3 14 19 0)
   \<and> clampToWorkingHours_spec (at 2025 3 14 19 0) = Inr (at 2025 3 17 9 0)"
proof -
  have v: "valid_datetime (at 2025 3 14 19 0)" by code_simp
  have e: "clampToWorkingHours_spec (at 2025 3 14 19 0) = Inr (at 2025 3 17 9 0)" by code_simp
  show ?thesis using v e C3_clamp_to_working_hours_case_split[OF v] by simp
qed

text \<open>
  Claim C4.  Whenever \<^verbatim>\<open>clamp_to_future_2025\<close> returns, it has (1) replaced the year of
  \<open>t\<close> by 2025 when it was earlier, keeping month, day and time of day, (2) built the floor
  from the current IST moment with the year set to 2025 and everything else preserved, and
  (3) returned the floor when the (year-corrected) \<open>t\<close> is earlier and that \<open>t\<close> otherwise;
  so the value returned is never earlier than the floor.
\<close>

theorem C4_clamp_to_future_2025:
  assumes "valid_datetime t" and "get_now_ist env w = (Inr now_ist, w1)"
    and "clamp_to_future_2025 env t w = (Inr r, w')"
  shows "\<exists>floor t1.
           virtual_2025 now_ist = Inr floor
         \<and> year floor = 2025 \<and> month floor = month now_ist \<and> day floor = day now_ist
         \<and> hour floor = hour now_ist \<and> minute floor = minute now_ist
         \<and> second floor = second now_ist \<and> microsecond floor = microsecond now_ist
         \<and> (if year t < 2025
             then replace_year t 2025 = Inr t1 \<and> year t1 = 2025 \<and> month t1 = month t
                  \<and> day t1 = day t \<and> hour t1 = hour t \<and> minute t1 = minute t
                  \<and> second t1 = second t \<and> microsecond t1 = microsecond t
             else t1 = t)
         \<and> r = (if datetime_less t1 floor then floor else t1)
         \<and> datetime_le floor r \<and> valid_datetime r"
  using assms by (rule clamp_to_future_2025_result)

text \<open>
  With the clock at 2025-03-17 12:00 IST, the seed 2024-03-13 10:00 is first moved to
  2025-03-13 10:00 and then replaced by the floor 2025-03-17 12:00.
\<close>

theorem C4_clamp_to_future_2025_witness:
  "valid_datetime (at 2024 3 13 10 0)
   \<and> get_now_ist (always_free (at 2025 3 17 6 30)) start_world
       = (Inr (at 2025 3 17 12 0), start_world\<lparr>clock_reads := 1\<rparr>)
   \<and> clamp_to_future_2025 (always_free (at 2025 3 17 6 30)) (at 2024 3 13 10 0) start_world
       = (Inr (at 2025 3 17 12 0), start_world\<lparr>clock_reads := 1\<rparr>)
   \<and> (\<exists>floor. virtual_2025 (at 2025 3 17 12 0) = Inr floor
         \<and> datetime_le floor (at 2025 3 17 12 0))"
proof -
  have v: "valid_datetime (at 2024 3 13 10 0)" by code_simp
  have g: "get_now_ist (always_free (at 2025 3 17 6 30)) start_world
       = (Inr (at 2025 3 17 12 0), start_world\<lparr>clock_reads := 1\<rparr>)" by code_simp
  have c: "clamp_to_future_2025 (always_free (at 2025 3 17 6 30)) (at 2024 3 13 10 0) start_world
       = (Inr (at 2025 3 17 12 0), start_world\<lparr>clock_reads := 1\<rparr>)" by code_simp
  from C4_clamp_to_future_2025[OF v g c]
  have "\<exists>floor. virtual_2025 (at 2025 3 17 12 0) = Inr floor
         \<and> datetime_le floor (at 2025 3 17 12 0)" by blast
  with v g c show ?thesis by blast
qed

text \<open>
  Claim C5, as stated: for every seed inside business hours, the seed-time search against
  an oracle that reports every interval free returns the seed itself.  This fails: the
  search first clamps the seed to the future, so a business-hours seed that lies before the
  current moment re-anchored to 2025 is replaced.  With the clock at 2025-03-17 12:00 IST
  the seed Thursday 2025-03-13 10:00 yields Monday 2025-03-17 12:00.
\<close>

theorem C5_seed_in_hours_counterexample:
  "valid_datetime (at 2025 3 13 10 0) \<and> weekday (at 2025 3 13 10 0) < 5
   \<and> 9 \<le> hour (at 2025 3 13 10 0) \<and> hour (at 2025 3 13 10 0) < 19
   \<and> reports_free (always_free (at 2025 3 17 6 30))
   \<and> find_first_free_slot (always_free (at 2025 3 17 6 30)) (at 2025 3 13 10 0) start_world
       = (Inr (Some (at 2025 3 17 12 0)), \<lparr>clock_reads = 1, queries = 2\<rparr>)
   \<and> at 2025 3 17 12 0 \<noteq> at 2025 3 13 10 0"
proof -
  have v: "valid_datetime (at 2025 3 13 10 0) \<and> weekday (at 2025 3 13 10 0) < 5
     \<and> 9 \<le> hour (at 2025 3 13 10 0) \<and> hour (at 2025 3 13 10 0) < 19" by code_simp
  have c1: "clamp_to_future_2025 (always_free (at 2025 3 17 6 30)) (at 2025 3 13 10 0) start_world
      = (Inr (at 2025 3 17 12 0), \<lparr>clock_reads = 1, queries = 0\<rparr>)" by code_simp
  have c2: "clamp_to_working_hours (at 2025 3 17 12 0) = Inr (at 2025 3 17 12 0)" by code_simp
  have v1: "valid_datetime (at 2025 3 17 12 0)" "2 \<le> toordinal (at 2025 3 17 12 0)"
    by code_simp+
  have ne: "at 2025 3 17 12 0 \<noteq> at 2025 3 13 10 0" by code_simp
  from seed_iteration_free[OF reports_free_always_free c1 c2 v1]
  have "find_first_free_slot (always_free (at 2025 3 17 6 30)) (at 2025 3 13 10 0) start_world
      = (Inr (Some (at 2025 3 17 12 0)), \<lparr>clock_reads = 1, queries = 0\<rparr>\<lparr>queries := queries \<lparr>clock_reads = 1, queries = 0\<rparr> + 2\<rparr>)"
    by (rule find_first_free_slot_Found)
  then show ?thesis using v ne reports_free_always_free by simp
qed

text \<open>
  Claim C5, amended: for every seed inside business hours (Monday to Friday, hour in
  [9, 19)) that is not earlier than the current moment re-anchored to 2025 (so the floor
  exists, i.e. the current IST date is not 29 February), the seed-time search against an
  oracle that reports every queried interval free returns exactly the seed, after one clock
  reading and two queries.
\<close>

theorem C5_seed_in_hours_not_before_floor:
  assumes "valid_datetime seed" "weekday seed < 5" "9 \<le> hour seed" "hour seed < 19"
    and "reports_free env"
    and "reanchored_now env (clock_reads w) = Inr floor" "datetime_le floor seed"
  shows "find_first_free_slot env seed w
       = (Inr (Some seed), w\<lparr>clock_reads := clock_reads w + 1, queries := queries w + 2\<rparr>)"
  using assms by (rule find_first_free_slot_in_hours_free)

theorem C5_seed_in_hours_not_before_floor_witness:
  "valid_datetime (at 2025 3 18 10 0) \<and> weekday (at 2025 3 18 10 0) < 5
   \<and> 9 \<le> hour (at 2025 3 18 10 0) \<and> hour (at 2025 3 18 10 0) < 19
   \<and> reports_free (always_free (at 2025 3 17 6 30))
   \<and> reanchored_now (always_free (at 2025 3 17 6 30)) (clock_reads start_world)
       = Inr (at 2025 3 17 12 0)
   \<and> datetime_le (at 2025 3 17 12 0) (at 2025 3 18 10 0)
   \<and> find_first_free_slot (always_free (at 2025 3 17 6 30)) (at 2025 3 18 10 0) start_world
       = (Inr (Some (at 2025 3 18 10 0)), \<lparr>clock_reads = 1, queries = 2\<rparr>)"
proof -
  have v: "valid_datetime (at 2025 3 18 10 0)" and wd: "weekday (at 2025 3 18 10 0) < 5"
    and h: "9 \<le> hour (at 2025 3 18 10 0)" "hour (at 2025 3 18 10 0) < 19"
    by code_simp+
  have f: "reanchored_now (always_free (at 2025 3 17 6 30)) (clock_reads start_world)
       = Inr (at 2025 3 17 12 0)" by code_simp
  have le: "datetime_le (at 2025 3 17 12 0) (at 2025 3 18 10 0)" by code_simp
  show ?thesis
    using v wd h f le reports_free_always_free
      C5_seed_in_hours_not_before_floor[OF v wd h reports_free_always_free f le]
    by (simp add: start_world_def)
qed

text \<open>
  Claim C6.  Every slot start the seed-time search returns lies on Monday to Friday, has
  its hour in [9, 19), and is not earlier than the current moment re-anchored to 2025, as
  read from the clock in the iteration that returned it (the last reading of the run);
  for every seed and every behaviour of clock and service.
\<close>

theorem C6_found_slot_in_business_hours_not_past:
  assumes "valid_datetime start_ist"
    and "find_first_free_slot env start_ist w = (Inr (Some slot), w')"
  shows "weekday slot < 5 \<and> 9 \<le> hour slot \<and> hour slot < 19 \<and> valid_datetime slot
       \<and> clock_reads w < clock_reads w'
       \<and> (\<exists>floor. reanchored_now env (clock_reads w' - 1) = Inr floor \<and> datetime_le floor slot)"
proof -
  from assms(2) obtain n where l:
    "find_first_free_slot_loop env start_ist 0 w = (Inr (Some slot), n, w')"
    unfolding find_first_free_slot_def by (auto split: prod.splits)
  have "clock_reads w < clock_reads w'"
    using find_first_free_slot_loop_count[OF l] by simp
  then show ?thesis
    using find_first_free_slot_loop_Found[OF l assms(1)] by simp
qed

text \<open>
  The seed Saturday 2025-03-15 10:30, with the clock at 2025-03-17 12:00 IST and a free
  calendar, gives Monday 2025-03-17 12:00.
\<close>

theorem C6_found_slot_in_business_hours_not_past_witness:
  "valid_datetime (at 2025 3 15 10 30)
   \<and> find_first_free_slot (always_free (at 2025 3 17 6 30)) (at 2025 3 15 10 30) start_world
       = (Inr (Some (at 2025 3 17 12 0)), \<lparr>clock_reads = 1, queries = 2\<rparr>)
   \<and> weekday (at 2025 3 17 12 0) < 5 \<and> 9 \<le> hour (at 2025 3 17 12 0)
   \<and> hour (at 2025 3 17 12 0) < 19
   \<and> (\<exists>floor. reanchored_now (always_free (at 2025 3 17 6 30)) 0 = Inr floor
         \<and> datetime_le floor (at 2025 3 17 12 0))"
proof -
  have v: "valid_datetime (at 2025 3 15 10 30)" by code_simp
  have c1: "clamp_to_future_2025 (always_free (at 2025 3 17 6 30)) (at 2025 3 15 10 30) start_world
      = (Inr (at 2025 3 17 12 0), \<lparr>clock_reads = 1, queries = 0\<rparr>)" by code_simp
  have c2: "clamp_to_working_hours (at 2025 3 17 12 0) = Inr (at 2025 3 17 12 0)" by code_simp
  have v1: "valid_datetime (at 2025 3 17 12 0)" "2 \<le> toordinal (at 2025 3 17 12 0)"
    by code_simp+
  from seed_iteration_free[OF reports_free_always_free c1 c2 v1]
  have "find_first_free_slot (always_free (at 2025 3 17 6 30)) (at 2025 3 15 10 30) start_world
      = (Inr (Some (at 2025 3 17 12 0)), \<lparr>clock_reads = 1, queries = 0\<rparr>\<lparr>queries := queries \<lparr>clock_reads = 1, queries = 0\<rparr> + 2\<rparr>)"
    by (rule find_first_free_slot_Found)
  then have r: "find_first_free_slot (always_free (at 2025 3 17 6 30)) (at 2025 3 15 10 30) start_world
      = (Inr (Some (at 2025 3 17 12 0)), \<lparr>clock_reads = 1, queries = 2\<rparr>)" by simp
  show ?thesis
    using v r C6_found_slot_in_business_hours_not_past[OF v r] by simp
qed

text \<open>
  Claim C7.  In both search variants an error of the busy-interval query is passed on
  unchanged to the caller of the search and no slot is produced.  If the query for the
  recruiter raises, or the query for the recruiter succeeds and the query for the candidate
  raises, then \<^verbatim>\<open>is_slot_free_for_both\<close> raises that error, and so does the loop of either
  search in the iteration that probes this slot.  For the searches as a whole: if the
  \<open>k\<close>-th query to the service fails, whichever identity and iteration it belongs to, and
  the search gets as far as making it, then \<^verbatim>\<open>find_first_free_slot\<close>, respectively
  \<^verbatim>\<open>find_1hr_slot_within_range\<close>, raises exactly that error, and makes no further query.
  Conversely a slot is only ever returned after both queries about it came back with an
  empty busy list.
\<close>

theorem C7_query_errors_propagate:
  "(get_busy_slots env RECRUITER_EMAIL s e w1 = (Inl err, w2)
      \<or> (\<exists>rb wm. get_busy_slots env RECRUITER_EMAIL s e w1 = (Inr rb, wm)
                \<and> get_busy_slots env CANDIDATE_EMAIL s e wm = (Inl err, w2))
    \<longrightarrow> is_slot_free_for_both env RECRUITER_EMAIL CANDIDATE_EMAIL s e w1 = (Inl err, w2)
      \<and> (attempts < max_attempts \<and> clamp_to_future_2025 env current w = (Inr c1, w1)
           \<and> clamp_to_working_hours c1 = Inr s \<and> datetime_add s (timedelta_of 0 1 0) = Inr e
         \<longrightarrow> find_first_free_slot_loop env current attempts w = (Inl err, attempts, w2))
      \<and> (datetime_add s (timedelta_of 0 1 0) = Inr e \<and> datetime_le e candidate_end
         \<longrightarrow> find_1hr_slot_loop env s candidate_end w1 = (Inl err, w2)))
   \<and> ((\<forall>body. freebusy_tape env k body = Inl fault) \<and> queries w_in \<le> k
      \<longrightarrow> (find_first_free_slot env seed w_in = (res, w_out) \<and> k < queries w_out
           \<longrightarrow> res = Inl fault \<and> queries w_out = k + 1)
        \<and> (find_1hr_slot_within_range env range_start range_stop w_in = (res', w_out')
             \<and> k < queries w_out'
           \<longrightarrow> res' = Inl fault \<and> queries w_out' = k + 1))
   \<and> (find_first_free_slot env start_ist w0 = (Inr (Some slot), w')
      \<longrightarrow> (\<exists>slot_end wa wm.
             get_busy_slots env RECRUITER_EMAIL slot slot_end wa = (Inr [], wm)
           \<and> get_busy_slots env CANDIDATE_EMAIL slot slot_end wm = (Inr [], w')))
   \<and> (find_1hr_slot_within_range env candidate_start range_end w0
         = (Inr (Some (slot_start, slot_stop)), w'')
      \<longrightarrow> (\<exists>wa wm.
             get_busy_slots env RECRUITER_EMAIL slot_start slot_stop wa = (Inr [], wm)
           \<and> get_busy_slots env CANDIDATE_EMAIL slot_start slot_stop wm = (Inr [], w'')))"
proof (intro conjI impI)
  assume q: "get_busy_slots env RECRUITER_EMAIL s e w1 = (Inl err, w2)
      \<or> (\<exists>rb wm. get_busy_slots env RECRUITER_EMAIL s e w1 = (Inr rb, wm)
                \<and> get_busy_slots env CANDIDATE_EMAIL s e wm = (Inl err, w2))"
  show p: "is_slot_free_for_both env RECRUITER_EMAIL CANDIDATE_EMAIL s e w1 = (Inl err, w2)"
    by (rule is_slot_free_for_both_raises[OF q])
  {
    assume h: "attempts < max_attempts \<and> clamp_to_future_2025 env current w = (Inr c1, w1)
           \<and> clamp_to_working_hours c1 = Inr s \<and> datetime_add s (timedelta_of 0 1 0) = Inr e"
    then have h1: "attempts < max_attempts"
      and h2: "clamp_to_future_2025 env current w = (Inr c1, w1)"
      and h3: "clamp_to_working_hours c1 = Inr s"
      and h4: "datetime_add s (timedelta_of 0 1 0) = Inr e" by simp_all
    show "find_first_free_slot_loop env current attempts w = (Inl err, attempts, w2)"
      by (rule find_first_free_slot_loop_raises[OF h1 h2 h3 h4 p])
  }
  {
    assume h: "datetime_add s (timedelta_of 0 1 0) = Inr e \<and> datetime_le e candidate_end"
    then have h1: "datetime_add s (timedelta_of 0 1 0) = Inr e"
      and h2: "datetime_le e candidate_end" by simp_all
    show "find_1hr_slot_loop env s candidate_end w1 = (Inl err, w2)"
      by (rule find_1hr_slot_loop_raises[OF h1 h2 p])
  }
next
  assume f: "(\<forall>body. freebusy_tape env k body = Inl fault) \<and> queries w_in \<le> k"
  then have f1: "\<forall>body. freebusy_tape env k body = Inl fault" and f2: "queries w_in \<le> k"
    by simp_all
  {
    assume h: "find_first_free_slot env seed w_in = (res, w_out) \<and> k < queries w_out"
    then have h1: "find_first_free_slot env seed w_in = (res, w_out)" and h2: "k < queries w_out"
      by simp_all
    from find_first_free_slot_fails_at[OF f1 f2 h1 h2]
    show "res = Inl fault" "queries w_out = k + 1" by simp_all
  }
  {
    assume h: "find_1hr_slot_within_range env range_start range_stop w_in = (res', w_out')
             \<and> k < queries w_out'"
    then have h1: "find_1hr_slot_within_range env range_start range_stop w_in = (res', w_out')"
      and h2: "k < queries w_out'" by simp_all
    from find_1hr_slot_within_range_fails_at[OF f1 f2 h1 h2]
    show "res' = Inl fault" "queries w_out' = k + 1" by simp_all
  }
next
  assume "find_first_free_slot env start_ist w0 = (Inr (Some slot), w')"
  then obtain n where "find_first_free_slot_loop env start_ist 0 w0 = (Inr (Some slot), n, w')"
    unfolding find_first_free_slot_def by (auto split: prod.splits)
  from find_first_free_slot_loop_Found_probe[OF this]
  show "\<exists>slot_end wa wm.
             get_busy_slots env RECRUITER_EMAIL slot slot_end wa = (Inr [], wm)
           \<and> get_busy_slots env CANDIDATE_EMAIL slot slot_end wm = (Inr [], w')"
    using is_slot_free_for_both_True by blast
next
  assume "find_1hr_slot_within_range env candidate_start range_end w0
         = (Inr (Some (slot_start, slot_stop)), w'')"
  then obtain c where "find_1hr_slot_loop env c range_end w0 = (Inr (Some (slot_start, slot_stop)), w'')"
    unfolding find_1hr_slot_within_range_def Let_def by (auto split: sum.splits)
  from find_1hr_slot_loop_Found_probe[OF this]
  show "\<exists>wa wm.
             get_busy_slots env RECRUITER_EMAIL slot_start slot_stop wa = (Inr [], wm)
           \<and> get_busy_slots env CANDIDATE_EMAIL slot_start slot_stop wm = (Inr [], w'')"
    using is_slot_free_for_both_True by blast
qed

text \<open>
  The recruiter's query succeeds with an empty busy list and the candidate's query fails:
  both loops raise the candidate's error in that iteration, no slot comes back.  With a
  busy calendar whose fourth query (the candidate's, in the second iteration) fails, both
  searches raise that error to their caller after four queries.  With a service that
  answers, the seed-time search returns a slot both queries reported free.
\<close>

theorem C7_query_errors_propagate_witness:
  "get_busy_slots (candidate_query_fails (at 2025 3 17 6 30)) RECRUITER_EMAIL
       (at 2025 3 18 10 0) (at 2025 3 18 11 0) \<lparr>clock_reads = 1, queries = 0\<rparr>
     = (Inr [], \<lparr>clock_reads = 1, queries = 1\<rparr>)
   \<and> get_busy_slots (candidate_query_fails (at 2025 3 17 6 30)) CANDIDATE_EMAIL
       (at 2025 3 18 10 0) (at 2025 3 18 11 0) \<lparr>clock_reads = 1, queries = 1\<rparr>
     = (Inl (QueryError ''503 backend error''), \<lparr>clock_reads = 1, queries = 2\<rparr>)
   \<and> find_first_free_slot_loop (candidate_query_fails (at 2025 3 17 6 30)) (at 2025 3 18 10 0)
       0 start_world
     = (Inl (QueryError ''503 backend error''), 0, \<lparr>clock_reads = 1, queries = 2\<rparr>)
   \<and> find_1hr_slot_loop (candidate_query_fails (at 2025 3 17 6 30)) (at 2025 3 18 10 0)
       (at 2025 3 18 12 0) \<lparr>clock_reads = 1, queries = 0\<rparr>
     = (Inl (QueryError ''503 backend error''), \<lparr>clock_reads = 1, queries = 2\<rparr>)
   \<and> (\<forall>body. freebusy_tape (query_fails_at 3 busy_response (at 2025 3 17 6 30)) 3 body
         = Inl (QueryError ''503 backend error''))
   \<and> queries start_world \<le> 3
   \<and> find_first_free_slot (query_fails_at 3 busy_response (at 2025 3 17 6 30))
       (at 2025 3 18 10 0) start_world
     = (Inl (QueryError ''503 backend error''), \<lparr>clock_reads = 2, queries = 4\<rparr>)
   \<and> find_1hr_slot_within_range (query_fails_at 3 busy_response (at 2025 3 17 6 30))
       (at 2025 3 24 10 0) (at 2025 3 24 12 0) start_world
     = (Inl (QueryError ''503 backend error''), \<lparr>clock_reads = 0, queries = 4\<rparr>)
   \<and> 3 < queries \<lparr>clock_reads = 2, queries = 4\<rparr>
   \<and> queries \<lparr>clock_reads = 2, queries = 4\<rparr> = 3 + 1
   \<and> find_first_free_slot (always_free (at 2025 3 17 6 30)) (at 2025 3 15 10 30) start_world
     = (Inr (Some (at 2025 3 17 12 0)), \<lparr>clock_reads = 1, queries = 2\<rparr>)
   \<and> (\<exists>slot_end wa wm.
         get_busy_slots (always_free (at 2025 3 17 6 30)) RECRUITER_EMAIL (at 2025 3 17 12 0)
           slot_end wa = (Inr [], wm)
       \<and> get_busy_slots (always_free (at 2025 3 17 6 30)) CANDIDATE_EMAIL (at 2025 3 17 12 0)
           slot_end wm = (Inr [], \<lparr>clock_reads = 1, queries = 2\<rparr>))"
proof -
  have a: "(0::nat) < max_attempts" by (simp add: max_attempts_def)
  note q = candidate_fails_queries
  note x = candidate_fails_example
  note t = C7_query_errors_propagate[of "candidate_query_fails (at 2025 3 17 6 30)"
      "at 2025 3 18 10 0" "at 2025 3 18 11 0" "\<lparr>clock_reads = 1, queries = 0\<rparr>"
      "QueryError ''503 backend error''" "\<lparr>clock_reads = 1, queries = 2\<rparr>"
      0 "at 2025 3 18 10 0" start_world "at 2025 3 18 10 0" "at 2025 3 18 12 0"]
  have 1: "find_first_free_slot_loop (candidate_query_fails (at 2025 3 17 6 30))
       (at 2025 3 18 10 0) 0 start_world
     = (Inl (QueryError ''503 backend error''), 0, \<lparr>clock_reads = 1, queries = 2\<rparr>)"
    using t[THEN conjunct1] q x a by blast
  have 2: "find_1hr_slot_loop (candidate_query_fails (at 2025 3 17 6 30)) (at 2025 3 18 10 0)
       (at 2025 3 18 12 0) \<lparr>clock_reads = 1, queries = 0\<rparr>
     = (Inl (QueryError ''503 backend error''), \<lparr>clock_reads = 1, queries = 2\<rparr>)"
    using t[THEN conjunct1] q x by blast
  note g = query_fails_at_3[of busy_response "at 2025 3 17 6 30"]
  have g0: "queries start_world \<le> 3" by (simp add: start_world_def)
  have g4: "3 < queries \<lparr>clock_reads = 2, queries = 4\<rparr>"
    "3 < queries \<lparr>clock_reads = 0, queries = 4\<rparr>" by simp_all
  note u = C7_query_errors_propagate[where env = "query_fails_at 3 busy_response (at 2025 3 17 6 30)"
      and k = 3 and fault = "QueryError ''503 backend error''" and w_in = start_world
      and seed = "at 2025 3 18 10 0"
      and res = "Inl (QueryError ''503 backend error'')"
      and w_out = "\<lparr>clock_reads = 2, queries = 4\<rparr>"
      and range_start = "at 2025 3 24 10 0" and range_stop = "at 2025 3 24 12 0"
      and res' = "Inl (QueryError ''503 backend error'')"
      and w_out' = "\<lparr>clock_reads = 0, queries = 4\<rparr>"]
  have 4: "queries \<lparr>clock_reads = 2, queries = 4\<rparr> = 3 + 1"
    using u[THEN conjunct2, THEN conjunct1] g g0 g4 seed_example_fails range_example_fails
    by blast
  note f = seed_example_free
  note t' = C7_query_errors_propagate[where env = "always_free (at 2025 3 17 6 30)"
      and start_ist = "at 2025 3 15 10 30" and ?w0.0 = start_world
      and slot = "at 2025 3 17 12 0" and w' = "\<lparr>clock_reads = 1, queries = 2\<rparr>"]
  have 3: "\<exists>slot_end wa wm.
         get_busy_slots (always_free (at 2025 3 17 6 30)) RECRUITER_EMAIL (at 2025 3 17 12 0)
           slot_end wa = (Inr [], wm)
       \<and> get_busy_slots (always_free (at 2025 3 17 6 30)) CANDIDATE_EMAIL (at 2025 3 17 12 0)
           slot_end wm = (Inr [], \<lparr>clock_reads = 1, queries = 2\<rparr>)"
    using t'[THEN conjunct2, THEN conjunct2, THEN conjunct1] f by blast
  show ?thesis
    using q 1 2 g g0 seed_example_fails range_example_fails g4(1) 4 f 3 by blast
qed

text \<open>
  Claim C8.  \<^verbatim>\<open>clamp_to_working_hours\<close> is idempotent: clamping the clamped value gives
  the clamped value again (and where the first clamp raises, so does the composition), and
  a datetime already inside business hours is returned as it is.
\<close>

theorem C8_clamp_to_working_hours_idempotent:
  "(case clamp_to_working_hours t of Inl e \<Rightarrow> Inl e | Inr t' \<Rightarrow> clamp_to_working_hours t')
     = clamp_to_working_hours t
   \<and> (weekday t < 5 \<and> 9 \<le> hour t \<and> hour t < 19 \<longrightarrow> clamp_to_working_hours t = Inr t)"
proof (cases "clamp_to_working_hours t")
  case (Inl e)
  then show ?thesis using clamp_to_working_hours_noop[of t] by auto
next
  case (Inr t')
  have "clamp_to_working_hours t' = Inr t'"
    using clamp_to_working_hours_range[OF Inr] by (simp add: clamp_to_working_hours_noop)
  then show ?thesis using Inr clamp_to_working_hours_noop[of t] by auto
qed

text \<open>Saturday 2025-03-15 10:30 clamps to Monday 09:00, which clamps to itself.\<close>

theorem C8_clamp_to_working_hours_idempotent_witness:
  "clamp_to_working_hours (at 2025 3 15 10 30) = Inr (at 2025 3 17 9 0)
   \<and> clamp_to_working_hours (at 2025 3 17 9 0) = Inr (at 2025 3 17 9 0)
   \<and> weekday (at 2025 3 17 9 0) < 5 \<and> 9 \<le> hour (at 2025 3 17 9 0) \<and> hour (at 2025 3 17 9 0) < 19"
proof -
  have e: "clamp_to_working_hours (at 2025 3 15 10 30) = Inr (at 2025 3 17 9 0)" by code_simp
  have w: "weekday (at 2025 3 17 9 0) < 5" by code_simp
  show ?thesis
    using e w C8_clamp_to_working_hours_idempotent[of "at 2025 3 15 10 30"]
    by (simp add: at_simps)
qed

text \<open>
  Claim C9.  \<^verbatim>\<open>clamp_to_working_hours\<close> never moves a datetime backward: whenever it
  returns, the value returned is at or after its argument (and is again a datetime).  So
  the candidates of the seed-time search never decrease: the candidate an iteration probes,
  and the one it hands to the next iteration, are at or after the one it started from.
\<close>

theorem C9_clamp_to_working_hours_not_backward:
  assumes "valid_datetime t"
  shows "(clamp_to_working_hours t = Inr t' \<longrightarrow> datetime_le t t' \<and> valid_datetime t')
       \<and> (seed_iteration env t w = (Found s, w2) \<longrightarrow> datetime_le t s)
       \<and> (seed_iteration env t w = (Advance c, w2) \<longrightarrow> datetime_le t c)"
  using clamp_to_working_hours_le[OF assms] seed_iteration_le[OF assms] by blast

text \<open>
  Saturday 2025-03-15 10:30 is clamped forward to Monday 09:00; the search started there
  probes Monday 12:00 (the clock stands at Monday 12:00 IST) and, when that is busy, hands
  on 13:00.
\<close>

theorem C9_clamp_to_working_hours_not_backward_witness:
  "valid_datetime (at 2025 3 15 10 30)
   \<and> clamp_to_working_hours (at 2025 3 15 10 30) = Inr (at 2025 3 17 9 0)
   \<and> datetime_le (at 2025 3 15 10 30) (at 2025 3 17 9 0)
   \<and> seed_iteration (always_free (at 2025 3 17 6 30)) (at 2025 3 15 10 30) start_world
       = (Found (at 2025 3 17 12 0), \<lparr>clock_reads = 1, queries = 2\<rparr>)
   \<and> datetime_le (at 2025 3 15 10 30) (at 2025 3 17 12 0)
   \<and> seed_iteration (always_busy (at 2025 3 17 6 30)) (at 2025 3 15 10 30) start_world
       = (Advance (at 2025 3 17 13 0), \<lparr>clock_reads = 1, queries = 2\<rparr>)
   \<and> datetime_le (at 2025 3 15 10 30) (at 2025 3 17 13 0)"
proof -
  have v: "valid_datetime (at 2025 3 15 10 30)" by code_simp
  have e: "clamp_to_working_hours (at 2025 3 15 10 30) = Inr (at 2025 3 17 9 0)" by code_simp
  note i = seed_example_iterations
  show ?thesis
    using v e i
      C9_clamp_to_working_hours_not_backward[OF v, of "at 2025 3 17 9 0"
        "always_free (at 2025 3 17 6 30)" start_world "at 2025 3 17 12 0"
        "\<lparr>clock_reads = 1, queries = 2\<rparr>"]
      C9_clamp_to_working_hours_not_backward[OF v, of "at 2025 3 17 9 0"
        "always_busy (at 2025 3 17 6 30)" start_world _ "\<lparr>clock_reads = 1, queries = 2\<rparr>"
        "at 2025 3 17 13 0"]
    by blast
qed

text \<open>
  Claim C10.  \<^verbatim>\<open>clamp_to_future_2025\<close> is not total.  Given that the clock reading could
  be turned into IST, it raises \<^verbatim>\<open>ValueError\<close> exactly when \<open>t\<close> lies on a 29 February
  of a year before 2025 (the \<^verbatim>\<open>replace(year=2025)\<close>) or when the current IST date is a
  29 February (the construction of the floor); on every other input it returns.
\<close>

theorem C10_clamp_to_future_2025_raises:
  assumes "valid_datetime t" and "get_now_ist env w = (Inr now_ist, w1)"
  shows "if (year t < 2025 \<and> month t = 2 \<and> day t = 29) \<or> (month now_ist = 2 \<and> day now_ist = 29)
         then clamp_to_future_2025 env t w = (Inl ValueError, w1)
         else (\<exists>r. clamp_to_future_2025 env t w = (Inr r, w1))"
proof -
  have vn: "valid_datetime now_ist" by (rule get_now_ist_valid(1)[OF assms(2)])
  show ?thesis
    unfolding clamp_to_future_2025_eq[OF assms(2)] replace_year_2025[OF assms(1)]
      virtual_2025_eq[OF vn]
    by simp
qed

text \<open>
  The seed 2024-02-29 10:00 raises; and so does any seed while the clock (IST) stands on
  2028-02-29.
\<close>

theorem C10_clamp_to_future_2025_raises_witness:
  "valid_datetime (at 2024 2 29 10 0)
   \<and> get_now_ist (always_free (at 2025 3 17 6 30)) start_world
       = (Inr (at 2025 3 17 12 0), start_world\<lparr>clock_reads := 1\<rparr>)
   \<and> clamp_to_future_2025 (always_free (at 2025 3 17 6 30)) (at 2024 2 29 10 0) start_world
       = (Inl ValueError, start_world\<lparr>clock_reads := 1\<rparr>)
   \<and> valid_datetime (at 2026 3 2 10 0)
   \<and> get_now_ist (always_free (at 2028 2 28 18 30)) start_world
       = (Inr (at 2028 2 29 0 0), start_world\<lparr>clock_reads := 1\<rparr>)
   \<and> clamp_to_future_2025 (always_free (at 2028 2 28 18 30)) (at 2026 3 2 10 0) start_world
       = (Inl ValueError, start_world\<lparr>clock_reads := 1\<rparr>)"
proof -
  have v: "valid_datetime (at 2024 2 29 10 0)" by code_simp
  have g: "get_now_ist (always_free (at 2025 3 17 6 30)) start_world
       = (Inr (at 2025 3 17 12 0), start_world\<lparr>clock_reads := 1\<rparr>)" by code_simp
  have c: "year (at 2024 2 29 10 0) < 2025 \<and> month (at 2024 2 29 10 0) = 2
       \<and> day (at 2024 2 29 10 0) = 29" by code_simp
  have v': "valid_datetime (at 2026 3 2 10 0)" by code_simp
  have g': "get_now_ist (always_free (at 2028 2 28 18 30)) start_world
       = (Inr (at 2028 2 29 0 0), start_world\<lparr>clock_reads := 1\<rparr>)" by code_simp
  have c': "month (at 2028 2 29 0 0) = 2 \<and> day (at 2028 2 29 0 0) = 29" by code_simp
  show ?thesis
    using v g c C10_clamp_to_future_2025_raises[OF v g]
      v' g' c' C10_clamp_to_future_2025_raises[OF v' g'] by simp
qed

end
